theory Spec2Isabelle
  imports Main "HOL-Library.Word" "HOL-Library.List_Lexorder"
begin

section \<open>The modify walk of the B-tree (src/btree/modify\_oper.cc)\<close>

text \<open>
  The file \<^verbatim>\<open>modify_oper.cc\<close> holds five functions: \<^verbatim>\<open>insert_root\<close>,
  \<^verbatim>\<open>check_and_handle_split\<close>, \<^verbatim>\<open>check_and_handle_underfull\<close>, \<^verbatim>\<open>get_root\<close> and
  \<^verbatim>\<open>run_btree_modify_oper\<close>. They are embedded here as functions over an explicit
  state (the block store of the cache, the superblock's root field, the depth counter,
  the slice, and the three buffer locks of the walk) with errors as values.

  The node primitives (\<^verbatim>\<open>leaf::\<close>, \<^verbatim>\<open>internal_node::\<close>, \<^verbatim>\<open>node::\<close>), the value
  accessors, the operator and the CAS generator are declared in headers that are not
  part of the file; they are the fields of the record \<open>env\<close>, and every theorem holds
  for whatever primitives are put there unless it names a contract as a hypothesis.
\<close>

subsection \<open>Data\<close>

text \<open>A block id, with the two distinguished ids the walk compares against.\<close>

datatype block_id = NULL_BLOCK_ID | SUPERBLOCK_ID | Blk nat

text \<open>\<^verbatim>\<open>btree_key\<close>: a size byte and that many bytes of contents.\<close>

type_synonym btree_key = "8 word list"

type_synonym cas_t = "64 word"

type_synonym repli_timestamp = nat

text \<open>A large-value handle: its state and the block id of its root reference.\<close>

datatype lb_state = not_loaded | loaded | lb_deleted

record large_buf =
  lb_state :: lb_state
  lb_root :: block_id

text \<open>
  What \<^verbatim>\<open>oper->operate(txn, old_value, old_large_buflock, &new_value, new_large_buflock)\<close>
  leaves behind: its return value, the two out-parameters, the old large-value lock
  (passed by reference, so the operator may empty it), and the operator's field
  \<^verbatim>\<open>cas_already_set\<close> as it stands after the call (line 274 reads it then).
\<close>

record 'v oper_result =
  update_needed :: bool
  new_value :: "'v option"
  new_large_buflock :: "large_buf option"
  old_large_buflock :: "large_buf option"
  cas_already_set :: bool

text \<open>
  The collaborators of the walk. \<open>assertions\<close> says whether the build checks
  \<^verbatim>\<open>rassert\<close> (it does unless \<^verbatim>\<open>NDEBUG\<close> is defined; \<^verbatim>\<open>guarantee\<close> is checked in
  every build). \<open>node_merge\<close> and \<open>node_level\<close> read the parent and return the two
  nodes they rewrite and their out-parameter keys; \<open>internal_insert\<close> and
  \<open>leaf_insert\<close> return \<open>None\<close> for \<^verbatim>\<open>false\<close>.
\<close>

record ('n, 'v, 's) env =
  assertions :: bool
  block_size :: nat
  is_leaf :: "'n \<Rightarrow> bool"
  is_internal :: "'n \<Rightarrow> bool"
  node_split :: "nat \<Rightarrow> 'n \<Rightarrow> 'n \<times> 'n \<times> btree_key"
  node_is_underfull :: "nat \<Rightarrow> 'n \<Rightarrow> bool"
  node_is_mergable :: "nat \<Rightarrow> 'n \<Rightarrow> 'n \<Rightarrow> 'n \<Rightarrow> bool"
  node_merge :: "nat \<Rightarrow> 'n \<Rightarrow> 'n \<Rightarrow> 'n \<Rightarrow> 'n \<times> 'n \<times> btree_key"
  node_level :: "nat \<Rightarrow> 'n \<Rightarrow> 'n \<Rightarrow> 'n \<Rightarrow> bool \<times> 'n \<times> 'n \<times> btree_key \<times> btree_key"
  node_validate :: "nat \<Rightarrow> 'n \<Rightarrow> bool"
  leaf_init :: "nat \<Rightarrow> repli_timestamp \<Rightarrow> 'n"
  leaf_is_full :: "'n \<Rightarrow> btree_key \<Rightarrow> 'v \<Rightarrow> bool"
  leaf_lookup :: "'n \<Rightarrow> btree_key \<Rightarrow> 'v option"
  leaf_insert :: "nat \<Rightarrow> 'n \<Rightarrow> btree_key \<Rightarrow> 'v \<Rightarrow> repli_timestamp \<Rightarrow> 'n option"
  leaf_remove :: "nat \<Rightarrow> 'n \<Rightarrow> btree_key \<Rightarrow> 'n"
  internal_init :: "nat \<Rightarrow> 'n"
  internal_is_full :: "'n \<Rightarrow> bool"
  internal_insert :: "nat \<Rightarrow> 'n \<Rightarrow> btree_key \<Rightarrow> block_id \<Rightarrow> block_id \<Rightarrow> 'n option"
  internal_remove :: "nat \<Rightarrow> 'n \<Rightarrow> btree_key \<Rightarrow> 'n"
  internal_lookup :: "'n \<Rightarrow> btree_key \<Rightarrow> block_id"
  internal_sibling :: "'n \<Rightarrow> btree_key \<Rightarrow> int \<times> block_id"
  internal_is_singleton :: "'n \<Rightarrow> bool"
  internal_update_key :: "'n \<Rightarrow> btree_key \<Rightarrow> btree_key \<Rightarrow> 'n"
  is_large :: "'v \<Rightarrow> bool"
  expired :: "'v \<Rightarrow> bool"
  has_cas :: "'v \<Rightarrow> bool"
  set_cas :: "'v \<Rightarrow> cas_t \<Rightarrow> 'v"
  lb_ref :: "'v \<Rightarrow> block_id"
  actually_acquire_large_value :: "large_buf \<Rightarrow> block_id \<Rightarrow> large_buf"
  operate :: "'v option \<Rightarrow> large_buf option \<Rightarrow> 'v oper_result"
  gen_cas :: "'s \<Rightarrow> cas_t \<times> 's"

text \<open>
  The state of one walk. \<open>blocks\<close> is the cache's store of node blocks, \<open>root_block\<close>
  the superblock's field, \<open>deleted\<close> the blocks marked deleted (node blocks by
  \<^verbatim>\<open>buf()->mark_deleted()\<close>, large values by their root block), \<open>next_free\<close> the
  next id \<^verbatim>\<open>allocate\<close> hands out, \<open>clock\<close> what \<^verbatim>\<open>current_time()\<close> returns.
  \<open>sb_buf\<close> is only ever constructed on \<^verbatim>\<open>SUPERBLOCK_ID\<close> (line 184) and never
  swapped, so the slot is its acquired flag; \<open>last_buf\<close> and \<open>buf\<close> hold the id of the
  block they have acquired, or \<open>None\<close>.
\<close>

record ('n, 's) state =
  blocks :: "block_id \<rightharpoonup> 'n"
  root_block :: block_id
  deleted :: "block_id set"
  next_free :: nat
  pm_btree_depth :: int
  slice :: 's
  clock :: repli_timestamp
  sb_buf :: bool
  last_buf :: "block_id option"
  buf :: "block_id option"

text \<open>
  Every way the walk stops early: a failed \<^verbatim>\<open>rassert\<close> or \<^verbatim>\<open>guarantee\<close> (with the
  line of the source), a dereference of \<^verbatim>\<open>buf()\<close> on a lock that is not acquired or
  of a null value pointer (with the line), the acquisition of a block that the store
  does not have, the acquisition of a block that the walk itself still holds (the
  lock is exclusive, so the walk would wait for itself), and the loop's fuel running out.
\<close>

datatype error =
    Rassert nat
  | Guarantee nat
  | Null_deref nat
  | Missing_block block_id
  | Deadlock block_id
  | Out_of_fuel

definition ebind :: "error + 'a \<Rightarrow> ('a \<Rightarrow> error + 'b) \<Rightarrow> error + 'b" where
  "ebind m f = (case m of Inl e \<Rightarrow> Inl e | Inr x \<Rightarrow> f x)"

definition rassert :: "('n, 'v, 's) env \<Rightarrow> nat \<Rightarrow> bool \<Rightarrow> error + unit" where
  "rassert E line cond = (if assertions E \<and> \<not> cond then Inl (Rassert line) else Inr ())"

text \<open>\<^verbatim>\<open>lock.buf()->get_data_read()\<close> or \<^verbatim>\<open>get_data_write()\<close> at a line of the source.\<close>

definition get_data :: "nat \<Rightarrow> block_id option \<Rightarrow> ('n, 's) state \<Rightarrow> error + block_id \<times> 'n" where
  "get_data line lock st =
     (case lock of
        None \<Rightarrow> Inl (Null_deref line)
      | Some b \<Rightarrow> (case blocks st b of None \<Rightarrow> Inl (Missing_block b) | Some n \<Rightarrow> Inr (b, n)))"

text \<open>The blocks the walk holds.\<close>

definition held :: "('n, 's) state \<Rightarrow> block_id list" where
  "held st =
     (if sb_buf st then [SUPERBLOCK_ID] else [])
     @ (case last_buf st of None \<Rightarrow> [] | Some p \<Rightarrow> [p])
     @ (case buf st of None \<Rightarrow> [] | Some b \<Rightarrow> [b])"

text \<open>
  Modelled from the spec: \<^verbatim>\<open>buf_lock_t(txor, id, rwi_write)\<close> of
  \<^verbatim>\<open>buffer_cache/buf_lock.hpp\<close>, which is not under src/. The spec's buffer lock is
  "an exclusive handle to a cached block": acquiring a block gives its contents, and a
  block the walk already holds cannot be acquired a second time.
\<close>

definition acquire :: "('n, 's) state \<Rightarrow> block_id \<Rightarrow> error + 'n" where
  "acquire st i =
     (if i \<in> set (held st) then Inl (Deadlock i)
      else case blocks st i of None \<Rightarrow> Inl (Missing_block i) | Some n \<Rightarrow> Inr n)"

text \<open>
  Modelled from the spec: \<^verbatim>\<open>sized_strcmp\<close> of \<^verbatim>\<open>utils.hpp\<close>, which is not under src/.
  The spec orders keys by "lexicographic comparison over (contents, size)": the bytes
  of the common length are compared as \<^verbatim>\<open>memcmp\<close> does, and the sizes break a tie.
\<close>

fun memcmp :: "8 word list \<Rightarrow> 8 word list \<Rightarrow> int" where
  "memcmp (x # xs) (y # ys) = (if x = y then memcmp xs ys else int (unat x) - int (unat y))"
| "memcmp _ _ = 0"

definition sized_strcmp :: "btree_key \<Rightarrow> btree_key \<Rightarrow> int" where
  "sized_strcmp k1 k2 =
     (let min_len = min (length k1) (length k2);
          res = memcmp (take min_len k1) (take min_len k2)
      in if res = 0 then int (length k1) - int (length k2) else res)"

subsection \<open>insert\_root (lines 28-33)\<close>

definition insert_root ::
  "('n, 'v, 's) env \<Rightarrow> block_id \<Rightarrow> ('n, 's) state \<Rightarrow> error + ('n, 's) state" where
  "insert_root E root_id st =
     ebind (rassert E 29 (sb_buf st)) (\<lambda>_.
     if \<not> sb_buf st then Inl (Null_deref 30)
     else Inr (st\<lparr>root_block := root_id, sb_buf := False\<rparr>))"

subsection \<open>check\_and\_handle\_split (lines 38-87)\<close>

text \<open>
  Lines 42-49: whether the node has to be split. On a leaf, line 45 hands \<^verbatim>\<open>new_value\<close>
  to \<^verbatim>\<open>leaf::is_full\<close>. Modelled from the spec: \<^verbatim>\<open>leaf::is_full(node, key, value)\<close> is a
  predicate of a value, so with no new value (and the assertion of line 44 compiled out)
  the call has no result, the error \<open>Null_deref 45\<close>. The walk never makes that call:
  line 192 passes no value on internal nodes only, and line 271 is under
  \<^verbatim>\<open>if (new_value)\<close>.
\<close>

definition is_full_check ::
  "('n, 'v, 's) env \<Rightarrow> 'n \<Rightarrow> btree_key \<Rightarrow> 'v option \<Rightarrow> error + bool" where
  "is_full_check E node key new_val =
     (if is_leaf E node
      then ebind (rassert E 44 (new_val \<noteq> None)) (\<lambda>_.
             case new_val of
               None \<Rightarrow> Inl (Null_deref 45)
             | Some v \<Rightarrow> Inr (leaf_is_full E node key v))
      else ebind (rassert E 47 (new_val = None)) (\<lambda>_.
             Inr (internal_is_full E node)))"

definition check_and_handle_split ::
  "('n, 'v, 's) env \<Rightarrow> btree_key \<Rightarrow> 'v option \<Rightarrow> ('n, 's) state \<Rightarrow> error + ('n, 's) state" where
  "check_and_handle_split E key new_val st =
     ebind (get_data 40 (buf st) st) (\<lambda>(b, node).
     ebind (is_full_check E node key new_val) (\<lambda>full.
     if \<not> full then Inr st
     else
       let r = Blk (next_free st);
           (node', rnode, median) = node_split E (block_size E) node;
           st1 = st\<lparr>next_free := Suc (next_free st),
                    blocks := (blocks st)(b \<mapsto> node', r \<mapsto> rnode)\<rparr>
       in
       ebind (case last_buf st1 of
                None \<Rightarrow>
                  let p = Blk (next_free st1);
                      last_node = internal_init E (block_size E);
                      st2 = st1\<lparr>next_free := Suc (next_free st1),
                                last_buf := Some p,
                                blocks := (blocks st1)(p \<mapsto> last_node)\<rparr>
                  in ebind (insert_root E p st2) (\<lambda>st3.
                       Inr (p, last_node, st3\<lparr>pm_btree_depth := pm_btree_depth st3 + 1\<rparr>))
              | Some _ \<Rightarrow>
                  ebind (get_data 71 (last_buf st1) st1) (\<lambda>(p, last_node).
                    Inr (p, last_node, st1))) (\<lambda>(p, last_node, st4).
       ebind (case internal_insert E (block_size E) last_node median b r of
                None \<Rightarrow> ebind (rassert E 75 False) (\<lambda>_. Inr st4)
              | Some last_node' \<Rightarrow> Inr (st4\<lparr>blocks := (blocks st4)(p \<mapsto> last_node')\<rparr>)) (\<lambda>st5.
       if 0 \<ge> sized_strcmp key median then Inr st5
       else Inr (st5\<lparr>buf := Some r\<rparr>)))))"

subsection \<open>check\_and\_handle\_underfull (lines 90-150)\<close>

definition check_and_handle_underfull ::
  "('n, 'v, 's) env \<Rightarrow> btree_key \<Rightarrow> ('n, 's) state \<Rightarrow> error + ('n, 's) state" where
  "check_and_handle_underfull E key st =
     ebind (get_data 92 (buf st) st) (\<lambda>(b, node).
     if last_buf st \<noteq> None \<and> node_is_underfull E (block_size E) node then
       ebind (get_data 96 (last_buf st) st) (\<lambda>(p, parent_node).
       let (nodecmp_node_with_sib, sib_node_id) = internal_sibling E parent_node key in
       ebind (acquire st sib_node_id) (\<lambda>sib_node.
       ebind (if assertions E \<and> \<not> node_validate E (block_size E) sib_node
              then Inl (Rassert 107) else Inr ()) (\<lambda>_.
       if node_is_mergable E (block_size E) node sib_node parent_node then
         let (st1, survivor, key_to_remove) =
               (if nodecmp_node_with_sib < 0 then
                  let (l, r, k) = node_merge E (block_size E) node sib_node parent_node
                  in (st\<lparr>blocks := (blocks st)(b \<mapsto> l, sib_node_id \<mapsto> r),
                         deleted := insert b (deleted st),
                         buf := Some sib_node_id\<rparr>, sib_node_id, k)
                else
                  let (l, r, k) = node_merge E (block_size E) sib_node node parent_node
                  in (st\<lparr>blocks := (blocks st)(sib_node_id \<mapsto> l, b \<mapsto> r),
                         deleted := insert sib_node_id (deleted st)\<rparr>, b, k))
         in
         if \<not> internal_is_singleton E parent_node then
           Inr (st1\<lparr>blocks := (blocks st1)
                  (p \<mapsto> internal_remove E (block_size E) parent_node key_to_remove)\<rparr>)
         else
           ebind (insert_root E survivor (st1\<lparr>deleted := insert p (deleted st1)\<rparr>)) (\<lambda>st2.
             Inr (st2\<lparr>pm_btree_depth := pm_btree_depth st2 - 1\<rparr>))
       else
         let (leveled, node', sib_node', key_to_replace, replacement_key) =
               node_level E (block_size E) node sib_node parent_node;
             st1 = st\<lparr>blocks := (blocks st)(b \<mapsto> node', sib_node_id \<mapsto> sib_node')\<rparr>
         in
         if leveled then
           Inr (st1\<lparr>blocks := (blocks st1)
                  (p \<mapsto> internal_update_key E parent_node key_to_replace replacement_key)\<rparr>)
         else Inr st1)))
     else Inr st)"

subsection \<open>get\_root (lines 153-167)\<close>

definition get_root ::
  "('n, 'v, 's) env \<Rightarrow> ('n, 's) state \<Rightarrow> error + ('n, 's) state" where
  "get_root E st =
     ebind (rassert E 154 (buf st = None)) (\<lambda>_.
     if \<not> sb_buf st then Inl (Null_deref 156)
     else
       let node_id = root_block st in
       if node_id \<noteq> NULL_BLOCK_ID then
         ebind (acquire st node_id) (\<lambda>_. Inr (st\<lparr>buf := Some node_id\<rparr>))
       else
         let b = Blk (next_free st);
             st1 = st\<lparr>next_free := Suc (next_free st),
                      buf := Some b,
                      blocks := (blocks st)(b \<mapsto> leaf_init E (block_size E) (clock st))\<rparr>
         in ebind (insert_root E b st1) (\<lambda>st2.
              Inr (st2\<lparr>pm_btree_depth := pm_btree_depth st2 + 1\<rparr>)))"

subsection \<open>run\_btree\_modify\_oper (lines 170-320)\<close>

text \<open>The body of the descent loop, lines 191-213.\<close>

definition descend_step ::
  "('n, 'v, 's) env \<Rightarrow> btree_key \<Rightarrow> ('n, 's) state \<Rightarrow> error + ('n, 's) state" where
  "descend_step E key st =
     ebind (check_and_handle_split E key None st) (\<lambda>st1.
     ebind (check_and_handle_underfull E key st1) (\<lambda>st2.
     let st3 = (if sb_buf st2 \<and> last_buf st2 \<noteq> None then st2\<lparr>sb_buf := False\<rparr> else st2) in
     ebind (get_data 208 (buf st3) st3) (\<lambda>(b, node).
     let node_id = internal_lookup E node key in
     ebind (rassert E 209 (node_id \<noteq> NULL_BLOCK_ID \<and> node_id \<noteq> SUPERBLOCK_ID)) (\<lambda>_.
     ebind (acquire st3 node_id) (\<lambda>_.
     Inr (st3\<lparr>last_buf := Some b, buf := Some node_id\<rparr>))))))"

text \<open>
  The loop of line 190. Nothing in the file bounds the number of iterations (a store
  whose child ids form a cycle keeps it going), so the loop takes fuel, one unit for
  each iteration.
\<close>

primrec descend ::
  "('n, 'v, 's) env \<Rightarrow> btree_key \<Rightarrow> nat \<Rightarrow> ('n, 's) state \<Rightarrow> error + ('n, 's) state" where
  "descend E key 0 st =
     ebind (get_data 190 (buf st) st) (\<lambda>(b, node).
     if is_internal E node then Inl Out_of_fuel else Inr st)"
| "descend E key (Suc fuel) st =
     ebind (get_data 190 (buf st) st) (\<lambda>(b, node).
     if is_internal E node then ebind (descend_step E key st) (descend E key fuel)
     else Inr st)"

text \<open>
  Lines 242-255: the checks that the value and the large-value lock returned by
  \<^verbatim>\<open>operate\<close> are consistent.
\<close>

definition check_operate_result ::
  "('n, 'v, 's) env \<Rightarrow> 'v oper_result \<Rightarrow> error + unit" where
  "check_operate_result E res =
     (if update_needed res then
        (case new_value res of
           Some v \<Rightarrow>
             if is_large E v
             then rassert E 245 (case new_large_buflock res of
                                  Some lv \<Rightarrow> lb_ref E v = lb_root lv
                                | None \<Rightarrow> False)
             else rassert E 247 (new_large_buflock res = None)
         | None \<Rightarrow> rassert E 247 (new_large_buflock res = None))
      else rassert E 253 (new_large_buflock res = None))"

text \<open>Lines 264-298: the update of the leaf, given what is to be done.\<close>

definition update_leaf ::
  "('n, 'v, 's) env \<Rightarrow> btree_key \<Rightarrow> bool \<Rightarrow> bool \<Rightarrow> bool \<Rightarrow> 'v option \<Rightarrow> bool \<Rightarrow>
   ('n, 's) state \<Rightarrow> error + ('n, 's) state" where
  "update_leaf E key upd key_found expd new_val cas_set st =
     (if upd then
        ebind (case new_val of
                 Some v \<Rightarrow>
                   ebind (check_and_handle_split E key (Some v) st) (\<lambda>st1.
                   let (v', sl) = (if has_cas E v \<and> \<not> cas_set
                                   then let (c, sl') = gen_cas E (slice st1) in (set_cas E v c, sl')
                                   else (v, slice st1));
                       new_value_timestamp = clock st1
                   in
                   ebind (get_data 280 (buf st1) st1) (\<lambda>(b, leaf).
                   case leaf_insert E (block_size E) leaf key v' new_value_timestamp of
                     None \<Rightarrow> Inl (Guarantee 281)
                   | Some leaf' \<Rightarrow> Inr (st1\<lparr>slice := sl, blocks := (blocks st1)(b \<mapsto> leaf')\<rparr>)))
               | None \<Rightarrow>
                   if key_found \<or> expd then
                     ebind (get_data 284 (buf st) st) (\<lambda>(b, leaf).
                       Inr (st\<lparr>blocks := (blocks st)(b \<mapsto> leaf_remove E (block_size E) leaf key)\<rparr>))
                   else Inr st)
          (check_and_handle_underfull E key)
      else Inr st)"

text \<open>Lines 300-315: the release of the locks and of the old large value.\<close>

definition release_all ::
  "('n, 'v, 's) env \<Rightarrow> bool \<Rightarrow> 'v option \<Rightarrow> 'v oper_result \<Rightarrow>
   ('n, 's) state \<Rightarrow> error + ('n, 's) state" where
  "release_all E upd old res st =
     (let st1 = st\<lparr>sb_buf := False\<rparr> in
      ebind (rassert E 302 (buf st1 \<noteq> None)) (\<lambda>_.
      if buf st1 = None then Inl (Null_deref 303)
      else
        let st2 = st1\<lparr>buf := None, last_buf := None\<rparr> in
        if upd then
          (case old_large_buflock res of
             Some lv \<Rightarrow>
               ebind (rassert E 309 (new_large_buflock res = None)) (\<lambda>_.
               ebind (rassert E 311 (case old of Some ov \<Rightarrow> is_large E ov | None \<Rightarrow> False)) (\<lambda>_.
               ebind (rassert E 312 (case old of Some ov \<Rightarrow> lb_ref E ov = lb_root lv
                                     | None \<Rightarrow> False)) (\<lambda>_.
               Inr (st2\<lparr>deleted := insert (lb_root lv) (deleted st2)\<rparr>))))
           | None \<Rightarrow> Inr st2)
        else Inr st2))"

text \<open>
  Lines 219-228: the lock on the old large value, loaded by the operator when the key
  is found with a large value.
\<close>

definition acquire_old_large ::
  "('n, 'v, 's) env \<Rightarrow> 'v option \<Rightarrow> error + large_buf option" where
  "acquire_old_large E old =
     (case old of
        Some ov \<Rightarrow>
          if is_large E ov then
            let lv = actually_acquire_large_value E
                       \<lparr>lb_state = not_loaded, lb_root = NULL_BLOCK_ID\<rparr> (lb_ref E ov)
            in ebind (rassert E 227 (lb_state lv = loaded)) (\<lambda>_. Inr (Some lv))
          else Inr None
      | None \<Rightarrow> Inr None)"

text \<open>Lines 216-315: what the walk does once \<open>buf\<close> names the leaf.\<close>

definition apply_at_leaf ::
  "('n, 'v, 's) env \<Rightarrow> btree_key \<Rightarrow> ('n, 's) state \<Rightarrow> error + ('n, 's) state" where
  "apply_at_leaf E key st =
     ebind (get_data 217 (buf st) st) (\<lambda>(b, node).
     let old = leaf_lookup E node key in
     ebind (acquire_old_large E old) (\<lambda>old_lock.
     let expd = (case old of Some ov \<Rightarrow> expired E ov | None \<Rightarrow> False);
         key_found = (old \<noteq> None \<and> \<not> expd);
         res = operate E (if key_found then old else None) old_lock
     in
     ebind (check_operate_result E res) (\<lambda>_.
     let (new_val, upd) = (if \<not> update_needed res \<and> expd then (None, True)
                           else (new_value res, update_needed res))
     in
     ebind (update_leaf E key upd key_found expd new_val (cas_already_set res) st)
       (release_all E upd old res))))"

text \<open>
  The whole walk: the three locks are constructed (lines 184-186, the superblock
  acquired, the other two empty), the root is found, the loop descends to the leaf,
  and the operator is applied there. The result is the state the transaction commits.
\<close>

definition run_btree_modify_oper ::
  "('n, 'v, 's) env \<Rightarrow> nat \<Rightarrow> btree_key \<Rightarrow> ('n, 's) state \<Rightarrow> error + ('n, 's) state" where
  "run_btree_modify_oper E fuel key st =
     ebind (get_root E (st\<lparr>sb_buf := True, last_buf := None, buf := None\<rparr>)) (\<lambda>st1.
     ebind (descend E key fuel st1) (apply_at_leaf E key))"


subsection \<open>Predicates of the statements\<close>

text \<open>
  A store is quiet when none of its nodes is a full internal node or an underfull
  node: a descent through it finds nothing to split, to merge or to level.
\<close>

definition quiet :: "('n, 'v, 's) env \<Rightarrow> ('n, 's) state \<Rightarrow> bool" where
  "quiet E st \<longleftrightarrow>
     (\<forall>b n. blocks st b = Some n \<longrightarrow>
        \<not> internal_is_full E n \<and> \<not> node_is_underfull E (block_size E) n)"

text \<open>
  The cursor is at the root (no parent is held and \<open>buf\<close> names the block that the
  superblock records as the root) or at a direct child of the root (the parent held in
  \<open>last_buf\<close> is that block).
\<close>

definition near_root :: "('n, 's) state \<Rightarrow> bool" where
  "near_root st \<longleftrightarrow>
     (last_buf st = None \<and> buf st = Some (root_block st)) \<or> last_buf st = Some (root_block st)"

text \<open>
  The states in which the test of the loop (line 190) is evaluated, when the loop is
  entered in the state \<open>st\<close>: \<open>st\<close> itself, and the state that an iteration leaves
  when it was entered at such a state whose node is internal.
\<close>

inductive loop_head ::
  "('n, 'v, 's) env \<Rightarrow> btree_key \<Rightarrow> ('n, 's) state \<Rightarrow> ('n, 's) state \<Rightarrow> bool"
  for E key st where
    start: "loop_head E key st st"
  | step: "loop_head E key st s \<Longrightarrow> get_data 190 (buf s) s = Inr (b, node) \<Longrightarrow>
           is_internal E node \<Longrightarrow> descend_step E key s = Inr s' \<Longrightarrow> loop_head E key st s'"

text \<open>The same, with the number of iterations that have run.\<close>

inductive loop_head_at ::
  "('n, 'v, 's) env \<Rightarrow> btree_key \<Rightarrow> ('n, 's) state \<Rightarrow> nat \<Rightarrow> ('n, 's) state \<Rightarrow> bool"
  for E key st where
    at_start: "loop_head_at E key st 0 st"
  | at_step: "loop_head_at E key st n s \<Longrightarrow> get_data 190 (buf s) s = Inr (b, node) \<Longrightarrow>
              is_internal E node \<Longrightarrow> descend_step E key s = Inr s' \<Longrightarrow>
              loop_head_at E key st (Suc n) s'"

text \<open>The allocator has not handed out the ids from \<open>next_free\<close> on: no block has one.\<close>

definition fresh :: "('n, 's) state \<Rightarrow> bool" where
  "fresh st \<longleftrightarrow> (\<forall>n\<ge>next_free st. blocks st (Blk n) = None)"

text \<open>
  What the walk needs of the node primitives for a separator to fit into the parent:
  \<^verbatim>\<open>internal_node::insert\<close> succeeds on a node that is not full; a new internal node
  is not full; neither half of a split full internal node is full; and the node that
  a merge or a levelling of an underfull node leaves under the cursor is not full.
\<close>

definition room_contract :: "('n, 'v, 's) env \<Rightarrow> bool" where
  "room_contract E \<longleftrightarrow>
     (\<forall>n m l r. \<not> internal_is_full E n \<longrightarrow> internal_insert E (block_size E) n m l r \<noteq> None)
   \<and> \<not> internal_is_full E (internal_init E (block_size E))
   \<and> (\<forall>n l r m. internal_is_full E n \<longrightarrow> node_split E (block_size E) n = (l, r, m) \<longrightarrow>
         \<not> internal_is_full E l \<and> \<not> internal_is_full E r)
   \<and> (\<forall>n s p l r k. node_is_underfull E (block_size E) n \<longrightarrow>
         node_is_mergable E (block_size E) n s p \<longrightarrow>
         node_merge E (block_size E) n s p = (l, r, k)
           \<or> node_merge E (block_size E) s n p = (l, r, k) \<longrightarrow>
         \<not> internal_is_full E r)
   \<and> (\<forall>n s p lv n' s' k1 k2. node_is_underfull E (block_size E) n \<longrightarrow>
         \<not> node_is_mergable E (block_size E) n s p \<longrightarrow>
         node_level E (block_size E) n s p = (lv, n', s', k1, k2) \<longrightarrow>
         \<not> internal_is_full E n')"

text \<open>
  The parent held in \<open>last_buf\<close>, if there is one, is another block than the cursor's
  and its node is not full; and the same of the node under the cursor.
\<close>

definition parent_has_room :: "('n, 'v, 's) env \<Rightarrow> ('n, 's) state \<Rightarrow> bool" where
  "parent_has_room E st \<longleftrightarrow>
     fresh st
   \<and> (\<forall>p. last_buf st = Some p \<longrightarrow>
         buf st \<noteq> Some p \<and> (\<exists>pn. blocks st p = Some pn \<and> \<not> internal_is_full E pn))"

definition cursor_has_room :: "('n, 'v, 's) env \<Rightarrow> ('n, 's) state \<Rightarrow> bool" where
  "cursor_has_room E st \<longleftrightarrow>
     fresh st
   \<and> (\<exists>b n. buf st = Some b \<and> blocks st b = Some n \<and> \<not> internal_is_full E n
            \<and> last_buf st \<noteq> Some b)"

text \<open>
  What the walk needs of the node primitives for the superblock: a node is a leaf or
  an internal node; a fresh leaf is not full; the halves of a full internal node are
  not underfull, and neither is the half of a full leaf that has taken the new value;
  a node that is not underfull is not a singleton; and neither the survivor of a merge
  nor a levelled node is a singleton.
\<close>

definition root_contract :: "('n, 'v, 's) env \<Rightarrow> bool" where
  "root_contract E \<longleftrightarrow>
     (\<forall>n. is_leaf E n \<longleftrightarrow> \<not> is_internal E n)
   \<and> (\<forall>t k v. \<not> is_internal E (leaf_init E (block_size E) t)
              \<and> \<not> leaf_is_full E (leaf_init E (block_size E) t) k v)
   \<and> (\<forall>n l r m. internal_is_full E n \<longrightarrow> node_split E (block_size E) n = (l, r, m) \<longrightarrow>
         \<not> node_is_underfull E (block_size E) l \<and> \<not> node_is_underfull E (block_size E) r)
   \<and> (\<forall>n k v l r m w t x. leaf_is_full E n k v \<longrightarrow>
         node_split E (block_size E) n = (l, r, m) \<longrightarrow>
         leaf_insert E (block_size E) l k w t = Some x
           \<or> leaf_insert E (block_size E) r k w t = Some x \<longrightarrow>
         \<not> node_is_underfull E (block_size E) x)
   \<and> (\<forall>n. \<not> node_is_underfull E (block_size E) n \<longrightarrow> \<not> internal_is_singleton E n)
   \<and> (\<forall>n s p l r k. node_is_underfull E (block_size E) n \<longrightarrow>
         node_is_mergable E (block_size E) n s p \<longrightarrow>
         node_merge E (block_size E) n s p = (l, r, k)
           \<or> node_merge E (block_size E) s n p = (l, r, k) \<longrightarrow>
         \<not> internal_is_singleton E r)
   \<and> (\<forall>n s p lv n' s' k1 k2. node_is_underfull E (block_size E) n \<longrightarrow>
         \<not> node_is_mergable E (block_size E) n s p \<longrightarrow>
         node_level E (block_size E) n s p = (lv, n', s', k1, k2) \<longrightarrow>
         \<not> internal_is_singleton E n')"

text \<open>
  The two ways in which \<^verbatim>\<open>insert_root\<close> stops when it is entered without the
  superblock: the assertion of line 29 and, with assertions compiled out, the use of
  the released lock at line 30.
\<close>

definition without_superblock :: "error + 'a \<Rightarrow> bool" where
  "without_superblock r \<longleftrightarrow> r = Inl (Rassert 29) \<or> r = Inl (Null_deref 30)"

text \<open>
  At the test of the loop: while \<open>last_buf\<close> is unacquired the superblock is held, or
  the cursor is on the leaf that \<^verbatim>\<open>get_root\<close> has just installed; once \<open>last_buf\<close> is
  acquired it holds another block than the cursor's, and the superblock is held or
  the node in \<open>last_buf\<close> is not a singleton.
\<close>

definition root_safe :: "('n, 'v, 's) env \<Rightarrow> ('n, 's) state \<Rightarrow> bool" where
  "root_safe E st \<longleftrightarrow>
     fresh st
   \<and> (last_buf st = None \<longrightarrow>
         sb_buf st
         \<or> (\<exists>b t. buf st = Some b \<and> blocks st b = Some (leaf_init E (block_size E) t)))
   \<and> (\<forall>p. last_buf st = Some p \<longrightarrow>
         buf st \<noteq> Some p
         \<and> (\<exists>pn. blocks st p = Some pn \<and> (sb_buf st \<or> \<not> internal_is_singleton E pn)))"

subsection \<open>A small instance\<close>

text \<open>
  An instance of the collaborators for the concrete runs below: nodes are lists (a leaf
  of at most four entries, an internal node of at most five separators), a node is
  underfull below two entries, and two nodes can be merged when they hold fewer than
  four entries together.
\<close>

record tvalue =
  tv_bytes :: "8 word list"
  tv_expired :: bool
  tv_has_cas :: bool
  tv_cas :: cas_t
  tv_large :: "block_id option"

datatype tnode =
    TLeaf "(btree_key \<times> tvalue) list"
  | TInternal "(btree_key \<times> block_id) list" block_id

fun entries_of :: "tnode \<Rightarrow> (btree_key \<times> tvalue) list" where
  "entries_of (TLeaf es) = es"
| "entries_of (TInternal ps l) = []"

fun pairs_of :: "tnode \<Rightarrow> (btree_key \<times> block_id) list" where
  "pairs_of (TLeaf es) = []"
| "pairs_of (TInternal ps l) = ps"

fun last_of :: "tnode \<Rightarrow> block_id" where
  "last_of (TLeaf es) = NULL_BLOCK_ID"
| "last_of (TInternal ps l) = l"

fun t_is_leaf :: "tnode \<Rightarrow> bool" where
  "t_is_leaf (TLeaf es) = True"
| "t_is_leaf (TInternal ps l) = False"

fun t_size :: "tnode \<Rightarrow> nat" where
  "t_size (TLeaf es) = length es"
| "t_size (TInternal ps l) = length ps"

fun t_split :: "nat \<Rightarrow> tnode \<Rightarrow> tnode \<times> tnode \<times> btree_key" where
  "t_split bs (TLeaf es) =
     (let h = length es div 2 in
      (TLeaf (take h es), TLeaf (drop h es),
       (case rev (take h es) of [] \<Rightarrow> [] | e # _ \<Rightarrow> fst e)))"
| "t_split bs (TInternal ps l) =
     (let h = length ps div 2 in
      case drop h ps of
        [] \<Rightarrow> (TInternal ps l, TInternal [] l, [])
      | (k, c) # rest \<Rightarrow> (TInternal (take h ps) c, TInternal rest l, k))"

fun ins_entry :: "btree_key \<Rightarrow> tvalue \<Rightarrow> (btree_key \<times> tvalue) list \<Rightarrow> (btree_key \<times> tvalue) list" where
  "ins_entry k v [] = [(k, v)]"
| "ins_entry k v ((a, x) # es) =
     (if k = a then (k, v) # es
      else if k < a then (k, v) # (a, x) # es
      else (a, x) # ins_entry k v es)"

definition t_leaf_is_full :: "tnode \<Rightarrow> btree_key \<Rightarrow> tvalue \<Rightarrow> bool" where
  "t_leaf_is_full n k v = (map_of (entries_of n) k = None \<and> 4 \<le> length (entries_of n))"

definition t_leaf_insert ::
  "nat \<Rightarrow> tnode \<Rightarrow> btree_key \<Rightarrow> tvalue \<Rightarrow> repli_timestamp \<Rightarrow> tnode option" where
  "t_leaf_insert bs n k v ts =
     (if t_leaf_is_full n k v then None else Some (TLeaf (ins_entry k v (entries_of n))))"

definition t_leaf_remove :: "nat \<Rightarrow> tnode \<Rightarrow> btree_key \<Rightarrow> tnode" where
  "t_leaf_remove bs n k = TLeaf (filter (\<lambda>e. fst e \<noteq> k) (entries_of n))"

fun ins_pair ::
  "btree_key \<Rightarrow> block_id \<Rightarrow> block_id \<Rightarrow> (btree_key \<times> block_id) list \<Rightarrow>
   (btree_key \<times> block_id) list option" where
  "ins_pair m l r [] = None"
| "ins_pair m l r ((k, c) # ps) =
     (if c = l then Some ((m, l) # (k, r) # ps)
      else map_option (Cons (k, c)) (ins_pair m l r ps))"

definition t_internal_is_full :: "tnode \<Rightarrow> bool" where
  "t_internal_is_full n = (length (pairs_of n) = 5)"

definition t_internal_insert ::
  "nat \<Rightarrow> tnode \<Rightarrow> btree_key \<Rightarrow> block_id \<Rightarrow> block_id \<Rightarrow> tnode option" where
  "t_internal_insert bs n m l r =
     (if t_internal_is_full n then None
      else case ins_pair m l r (pairs_of n) of
             Some ps \<Rightarrow> Some (TInternal ps (last_of n))
           | None \<Rightarrow> Some (TInternal (pairs_of n @ [(m, l)]) r))"

definition t_internal_remove :: "nat \<Rightarrow> tnode \<Rightarrow> btree_key \<Rightarrow> tnode" where
  "t_internal_remove bs n k = TInternal (filter (\<lambda>p. fst p \<noteq> k) (pairs_of n)) (last_of n)"

fun lookup_pairs :: "btree_key \<Rightarrow> (btree_key \<times> block_id) list \<Rightarrow> block_id \<Rightarrow> block_id" where
  "lookup_pairs k [] l = l"
| "lookup_pairs k ((a, c) # ps) l = (if k \<le> a then c else lookup_pairs k ps l)"

fun sibling_pairs ::
  "btree_key \<Rightarrow> block_id \<Rightarrow> (btree_key \<times> block_id) list \<Rightarrow> block_id \<Rightarrow> int \<times> block_id" where
  "sibling_pairs k prev [] l = (1, prev)"
| "sibling_pairs k prev ((a, c) # ps) l =
     (if k \<le> a then (- 1, (case ps of [] \<Rightarrow> l | (a', c') # _ \<Rightarrow> c'))
      else sibling_pairs k c ps l)"

definition t_is_underfull :: "nat \<Rightarrow> tnode \<Rightarrow> bool" where
  "t_is_underfull bs n = (t_size n < 2)"

definition t_is_mergable :: "nat \<Rightarrow> tnode \<Rightarrow> tnode \<Rightarrow> tnode \<Rightarrow> bool" where
  "t_is_mergable bs n s p = (t_size n + t_size s < 4)"

text \<open>The separator that the parent holds for the left one of two adjacent children.\<close>

fun first_key :: "tnode \<Rightarrow> btree_key option" where
  "first_key (TLeaf es) = (case es of [] \<Rightarrow> None | e # _ \<Rightarrow> Some (fst e))"
| "first_key (TInternal ps l) = (case ps of [] \<Rightarrow> None | p # _ \<Rightarrow> Some (fst p))"

definition separator :: "tnode \<Rightarrow> tnode \<Rightarrow> btree_key" where
  "separator p r =
     (case first_key r of
        None \<Rightarrow> []
      | Some k \<Rightarrow> (case rev (filter (\<lambda>a. a < k) (map fst (pairs_of p))) of [] \<Rightarrow> [] | a # _ \<Rightarrow> a))"

fun t_merge :: "nat \<Rightarrow> tnode \<Rightarrow> tnode \<Rightarrow> tnode \<Rightarrow> tnode \<times> tnode \<times> btree_key" where
  "t_merge bs (TLeaf es) r p = (TLeaf es, TLeaf (es @ entries_of r), separator p r)"
| "t_merge bs (TInternal ps l) r p =
     (TInternal ps l, TInternal (ps @ [(separator p r, l)] @ pairs_of r) (last_of r), separator p r)"

definition t_level ::
  "nat \<Rightarrow> tnode \<Rightarrow> tnode \<Rightarrow> tnode \<Rightarrow> bool \<times> tnode \<times> tnode \<times> btree_key \<times> btree_key" where
  "t_level bs n s p = (False, n, s, [], [])"

definition t_update_key :: "tnode \<Rightarrow> btree_key \<Rightarrow> btree_key \<Rightarrow> tnode" where
  "t_update_key n old new =
     TInternal (map (\<lambda>(k, c). if k = old then (new, c) else (k, c)) (pairs_of n)) (last_of n)"

text \<open>
  An operator that stores a given value whatever it finds (a set), one that refuses,
  and one that stores a given large value with a handle of its own.
\<close>

definition set_oper :: "tvalue \<Rightarrow> tvalue option \<Rightarrow> large_buf option \<Rightarrow> tvalue oper_result" where
  "set_oper v old old_lock =
     \<lparr>update_needed = True, new_value = Some v,
      new_large_buflock = (case tv_large v of
                             None \<Rightarrow> None
                           | Some i \<Rightarrow> Some \<lparr>lb_state = loaded, lb_root = i\<rparr>),
      old_large_buflock = old_lock, cas_already_set = False\<rparr>"

definition refuse_oper :: "tvalue option \<Rightarrow> large_buf option \<Rightarrow> tvalue oper_result" where
  "refuse_oper old old_lock =
     \<lparr>update_needed = False, new_value = None, new_large_buflock = None,
      old_large_buflock = old_lock, cas_already_set = False\<rparr>"

definition delete_oper :: "tvalue option \<Rightarrow> large_buf option \<Rightarrow> tvalue oper_result" where
  "delete_oper old old_lock =
     \<lparr>update_needed = True, new_value = None, new_large_buflock = None,
      old_large_buflock = old_lock, cas_already_set = False\<rparr>"

definition toy_env ::
  "bool \<Rightarrow> (tvalue option \<Rightarrow> large_buf option \<Rightarrow> tvalue oper_result) \<Rightarrow> (tnode, tvalue, nat) env" where
  "toy_env dbg oper =
     \<lparr>assertions = dbg, block_size = 4096,
      is_leaf = t_is_leaf, is_internal = (\<lambda>n. \<not> t_is_leaf n),
      node_split = t_split, node_is_underfull = t_is_underfull,
      node_is_mergable = t_is_mergable, node_merge = t_merge, node_level = t_level,
      node_validate = (\<lambda>bs n. True),
      leaf_init = (\<lambda>bs ts. TLeaf []), leaf_is_full = t_leaf_is_full,
      leaf_lookup = (\<lambda>n k. map_of (entries_of n) k), leaf_insert = t_leaf_insert,
      leaf_remove = t_leaf_remove,
      internal_init = (\<lambda>bs. TInternal [] NULL_BLOCK_ID),
      internal_is_full = t_internal_is_full, internal_insert = t_internal_insert,
      internal_remove = t_internal_remove,
      internal_lookup = (\<lambda>n k. lookup_pairs k (pairs_of n) (last_of n)),
      internal_sibling = (\<lambda>n k. sibling_pairs k NULL_BLOCK_ID (pairs_of n) (last_of n)),
      internal_is_singleton = (\<lambda>n. length (pairs_of n) = 1),
      internal_update_key = t_update_key,
      is_large = (\<lambda>v. tv_large v \<noteq> None), expired = tv_expired, has_cas = tv_has_cas,
      set_cas = (\<lambda>v c. v\<lparr>tv_cas := c\<rparr>),
      lb_ref = (\<lambda>v. case tv_large v of None \<Rightarrow> NULL_BLOCK_ID | Some i \<Rightarrow> i),
      actually_acquire_large_value = (\<lambda>lv i. \<lparr>lb_state = loaded, lb_root = i\<rparr>),
      operate = oper,
      gen_cas = (\<lambda>s. (word_of_nat s, Suc s))\<rparr>"

definition small :: "8 word list \<Rightarrow> tvalue" where
  "small bs = \<lparr>tv_bytes = bs, tv_expired = False, tv_has_cas = False, tv_cas = 0, tv_large = None\<rparr>"

definition big :: "8 word list \<Rightarrow> block_id \<Rightarrow> tvalue" where
  "big bs i = \<lparr>tv_bytes = bs, tv_expired = False, tv_has_cas = False, tv_cas = 0, tv_large = Some i\<rparr>"

definition stale :: tvalue where
  "stale = \<lparr>tv_bytes = [10], tv_expired = True, tv_has_cas = False, tv_cas = 0, tv_large = None\<rparr>"

definition tagged :: tvalue where
  "tagged = \<lparr>tv_bytes = [20], tv_expired = False, tv_has_cas = True, tv_cas = 0, tv_large = None\<rparr>"

text \<open>Stores: an empty tree, a tree of one leaf, and a root with leaf children.\<close>

definition empty_store :: "(tnode, nat) state" where
  "empty_store =
     \<lparr>blocks = Map.empty, root_block = NULL_BLOCK_ID, deleted = {}, next_free = 1,
      pm_btree_depth = 0, slice = 0, clock = 7,
      sb_buf = False, last_buf = None, buf = None\<rparr>"

definition leaf_store :: "(btree_key \<times> tvalue) list \<Rightarrow> (tnode, nat) state" where
  "leaf_store es =
     \<lparr>blocks = [Blk 1 \<mapsto> TLeaf es], root_block = Blk 1, deleted = {}, next_free = 2,
      pm_btree_depth = 1, slice = 40, clock = 7,
      sb_buf = False, last_buf = None, buf = None\<rparr>"

definition four :: "(btree_key \<times> tvalue) list" where
  "four = [([1], small [10]), ([3], small [30]), ([5], small [50]), ([7], small [70])]"

definition family_store ::
  "(btree_key \<times> block_id) list \<Rightarrow> block_id \<Rightarrow> (block_id \<times> tnode) list \<Rightarrow> (tnode, nat) state" where
  "family_store ps l children =
     \<lparr>blocks = map_of ((Blk 1, TInternal ps l) # children), root_block = Blk 1, deleted = {},
      next_free = 10, pm_btree_depth = 2, slice = 40, clock = 7,
      sb_buf = False, last_buf = None, buf = None\<rparr>"

definition twins :: "(block_id \<times> tnode) list" where
  "twins = [(Blk 2, TLeaf [([5], small [50])]),
            (Blk 3, TLeaf [([15], small [15]), ([20], small [20])]),
            (Blk 4, TLeaf [([35], small [35]), ([40], small [40])])]"


definition pair_leaf :: "8 word \<Rightarrow> tnode" where
  "pair_leaf k = TLeaf [([k], small [k]), ([k + 1], small [k + 1])]"

definition six :: "(block_id \<times> tnode) list" where
  "six = [(Blk 2, pair_leaf 1), (Blk 3, pair_leaf 11), (Blk 4, pair_leaf 21),
          (Blk 5, pair_leaf 31), (Blk 6, pair_leaf 41), (Blk 7, pair_leaf 51)]"

text \<open>A root with five separators (a full internal node) over six leaves.\<close>

definition wide :: "(tnode, nat) state" where
  "wide = family_store [([10], Blk 2), ([20], Blk 3), ([30], Blk 4), ([40], Blk 5), ([50], Blk 6)]
            (Blk 7) six"

text \<open>A root with two separators over three leaves.\<close>

definition narrow :: "(tnode, nat) state" where
  "narrow = family_store [([10], Blk 2), ([20], Blk 3)] (Blk 4) six"

text \<open>A tree of three levels; only the blocks on the way to the key [3] are in the store.\<close>

definition tall :: "(tnode, nat) state" where
  "tall =
     \<lparr>blocks = [Blk 1 \<mapsto> TInternal [([20], Blk 2), ([60], Blk 3)] (Blk 4),
                 Blk 2 \<mapsto> TInternal [([5], Blk 5), ([10], Blk 6)] (Blk 7),
                 Blk 5 \<mapsto> pair_leaf 1, Blk 6 \<mapsto> pair_leaf 6, Blk 7 \<mapsto> pair_leaf 11],
      root_block = Blk 1, deleted = {}, next_free = 10,
      pm_btree_depth = 3, slice = 40, clock = 7,
      sb_buf = False, last_buf = None, buf = None\<rparr>"

text \<open>A root with one separator over a full leaf and a leaf of two entries.\<close>

definition crowded :: "(tnode, nat) state" where
  "crowded = family_store [([10], Blk 2)] (Blk 3) [(Blk 2, TLeaf four), (Blk 3, pair_leaf 11)]"

text \<open>
  A second instance. The first one levels nothing (\<open>t_level\<close> leaves both nodes as
  they are), so an internal node with a single separator beside a large sibling stays
  a singleton. Here an internal node is merged with its sibling exactly when it holds
  a single separator (the instance puts no bound on what an internal node takes in a
  merge), and leaves are merged with leaves as before.
\<close>

definition eager_mergable :: "nat \<Rightarrow> tnode \<Rightarrow> tnode \<Rightarrow> tnode \<Rightarrow> bool" where
  "eager_mergable bs n s p =
     (if t_is_leaf n then t_is_leaf s \<and> t_size n + t_size s < 4 else t_size n = 1)"

definition eager_env ::
  "bool \<Rightarrow> (tvalue option \<Rightarrow> large_buf option \<Rightarrow> tvalue oper_result) \<Rightarrow> (tnode, tvalue, nat) env" where
  "eager_env dbg oper = (toy_env dbg oper)\<lparr>node_is_mergable := eager_mergable\<rparr>"
section \<open>Properties\<close>

subsection \<open>Auxiliary facts\<close>

lemma ebind_Inl [simp]: "ebind (Inl e) f = Inl e"
  by (simp add: ebind_def)

lemma ebind_Inr [simp]: "ebind (Inr x) f = f x"
  by (simp add: ebind_def)

lemma ebind_eq_Inr: "ebind m f = Inr y \<longleftrightarrow> (\<exists>x. m = Inr x \<and> f x = Inr y)"
  by (cases m) simp_all

lemma byte_diff_le: "x \<noteq> y \<Longrightarrow> int (unat x) - int (unat y) \<le> 0 \<longleftrightarrow> x < y"
  for x y :: "8 word"
proof -
  assume ne: "x \<noteq> y"
  have "int (unat x) - int (unat y) \<le> 0 \<longleftrightarrow> unat x \<le> unat y" by linarith
  also have "\<dots> \<longleftrightarrow> x \<le> y" by (rule word_le_nat_alt [symmetric])
  also have "\<dots> \<longleftrightarrow> x < y" using ne by auto
  finally show ?thesis .
qed

lemma byte_diff_eq_0: "int (unat x) - int (unat y) = 0 \<longleftrightarrow> x = y"
  for x y :: "8 word"
proof -
  have "int (unat x) - int (unat y) = 0 \<longleftrightarrow> unat x = unat y" by linarith
  also have "\<dots> \<longleftrightarrow> x = y" by (rule word_unat_eq_iff [symmetric])
  finally show ?thesis .
qed

lemma sized_strcmp_Nil: "sized_strcmp [] ys = - int (length ys)"
  by (simp add: sized_strcmp_def)

lemma sized_strcmp_Cons_Nil: "sized_strcmp (x # xs) [] = 1 + int (length xs)"
  by (simp add: sized_strcmp_def)

lemma sized_strcmp_Cons_Cons:
  "sized_strcmp (x # xs) (y # ys) =
     (if x = y then sized_strcmp xs ys else int (unat x) - int (unat y))"
  using byte_diff_eq_0 [of x y] by (simp add: sized_strcmp_def Let_def del: of_nat_diff)

lemma sized_strcmp_le: "sized_strcmp k m \<le> 0 \<longleftrightarrow> k \<le> m"
proof (induction k arbitrary: m)
  case Nil
  show ?case by (simp add: sized_strcmp_Nil)
next
  case (Cons x xs)
  show ?case
  proof (cases m)
    case Nil
    then show ?thesis by (simp add: sized_strcmp_Cons_Nil)
  next
    case (Cons y ys)
    with Cons.IH [of ys] byte_diff_le [of x y] show ?thesis
      by (simp add: sized_strcmp_Cons_Cons)
  qed
qed

lemma get_data_Some: "blocks st b = Some n \<Longrightarrow> get_data line (Some b) st = Inr (b, n)"
  by (simp add: get_data_def)

lemma get_data_eq_Inr:
  "get_data line lock st = Inr x \<longleftrightarrow> (\<exists>b n. lock = Some b \<and> blocks st b = Some n \<and> x = (b, n))"
  by (auto simp: get_data_def split: option.splits)

lemmas toy_defs = toy_env_def t_leaf_is_full_def t_leaf_insert_def t_leaf_remove_def
  t_internal_is_full_def t_internal_insert_def t_internal_remove_def t_is_underfull_def
  t_is_mergable_def t_level_def t_update_key_def separator_def set_oper_def refuse_oper_def
  delete_oper_def small_def big_def

lemmas walk_defs = check_and_handle_split_def is_full_check_def check_and_handle_underfull_def
  get_root_def insert_root_def descend_step_def apply_at_leaf_def update_leaf_def
  release_all_def check_operate_result_def acquire_old_large_def run_btree_modify_oper_def
  get_data_def acquire_def held_def rassert_def Let_def


lemma descend_step_quiet:
  assumes "quiet E st" and "descend_step E key st = Inr st'"
  shows "st'\<lparr>sb_buf := False, last_buf := None, buf := None\<rparr> =
         st\<lparr>sb_buf := False, last_buf := None, buf := None\<rparr>"
proof -
  from assms(2) obtain st1 where s1: "check_and_handle_split E key None st = Inr st1"
    by (auto simp: descend_step_def ebind_eq_Inr)
  with assms(1) have "st1 = st"
    by (auto simp: check_and_handle_split_def is_full_check_def quiet_def ebind_eq_Inr
                   get_data_eq_Inr rassert_def split: if_splits)
  with assms(2) s1 obtain st2 where s2: "check_and_handle_underfull E key st = Inr st2"
    by (auto simp: descend_step_def ebind_eq_Inr)
  with assms(1) have "st2 = st"
    by (auto simp: check_and_handle_underfull_def quiet_def ebind_eq_Inr get_data_eq_Inr
             split: if_splits)
  with assms(2) s1 s2 \<open>st1 = st\<close> show ?thesis
    by (auto simp: descend_step_def ebind_eq_Inr Let_def get_data_eq_Inr split: if_splits)
qed

lemma descend_quiet:
  "quiet E st \<Longrightarrow> descend E key fuel st = Inr st' \<Longrightarrow>
     st'\<lparr>sb_buf := False, last_buf := None, buf := None\<rparr> =
     st\<lparr>sb_buf := False, last_buf := None, buf := None\<rparr>"
proof (induction fuel arbitrary: st)
  case 0
  then show ?case
    by (auto simp: ebind_eq_Inr split: if_splits)
next
  case (Suc fuel)
  show ?case
  proof (cases "descend_step E key st")
    case (Inl e)
    with Suc.prems show ?thesis
      by (auto simp: ebind_eq_Inr split: if_splits)
  next
    case (Inr s)
    note same = descend_step_quiet [OF Suc.prems(1) Inr]
    have "blocks s = blocks st"
      using arg_cong [OF same, of blocks] by simp
    then have q: "quiet E s" using Suc.prems(1) by (simp add: quiet_def)
    from Suc.prems(2) Inr have "st' = st \<or> descend E key fuel s = Inr st'"
      by (auto simp: ebind_eq_Inr split: if_splits)
    then show ?thesis
    proof
      assume "st' = st"
      then show ?thesis by simp
    next
      assume "descend E key fuel s = Inr st'"
      from Suc.IH [OF q this] same show ?thesis by simp
    qed
  qed
qed

lemma get_root_existing:
  "root_block st \<noteq> NULL_BLOCK_ID \<Longrightarrow> get_root E st = Inr st' \<Longrightarrow>
     st' = st\<lparr>buf := Some (root_block st)\<rparr>"
  by (auto simp: get_root_def ebind_eq_Inr Let_def split: if_splits)

lemma insert_root_frame:
  "insert_root E i st = Inr st' \<Longrightarrow>
     slice st' = slice st \<and> clock st' = clock st \<and> blocks st' = blocks st
     \<and> last_buf st' = last_buf st \<and> buf st' = buf st \<and> next_free st' = next_free st
     \<and> sb_buf st \<and> \<not> sb_buf st' \<and> root_block st' = i \<and> deleted st' = deleted st
     \<and> pm_btree_depth st' = pm_btree_depth st"
  by (auto simp: insert_root_def ebind_eq_Inr split: if_splits)

lemma check_and_handle_underfull_slice:
  assumes "check_and_handle_underfull E key st = Inr st'"
  shows "slice st' = slice st \<and> clock st' = clock st"
proof (cases "last_buf st \<noteq> None \<and> (\<exists>b n. buf st = Some b \<and> blocks st b = Some n
                \<and> node_is_underfull E (block_size E) n)")
  case False
  with assms show ?thesis
    by (auto simp: check_and_handle_underfull_def ebind_eq_Inr get_data_eq_Inr split: if_splits)
next
  case True
  then obtain b n p where c: "buf st = Some b" "blocks st b = Some n" "last_buf st = Some p"
    "node_is_underfull E (block_size E) n" by auto
  with assms obtain pn where p: "blocks st p = Some pn"
    by (auto simp: check_and_handle_underfull_def get_data_def split: option.splits)
  obtain cmp sib where s: "internal_sibling E pn key = (cmp, sib)" by (cases "internal_sibling E pn key")
  with assms c p obtain sn where a: "acquire st sib = Inr sn"
    by (cases "acquire st sib") (auto simp: check_and_handle_underfull_def get_data_def)
  obtain l r k where m1: "node_merge E (block_size E) n sn pn = (l, r, k)"
    by (cases "node_merge E (block_size E) n sn pn")
  obtain l' r' k' where m2: "node_merge E (block_size E) sn n pn = (l', r', k')"
    by (cases "node_merge E (block_size E) sn n pn")
  obtain lv n' s' k1 k2 where lv: "node_level E (block_size E) n sn pn = (lv, n', s', k1, k2)"
    by (cases "node_level E (block_size E) n sn pn")
  from assms c p s a m1 m2 lv show ?thesis
    by (auto simp: check_and_handle_underfull_def get_data_def Let_def ebind_eq_Inr
             dest!: insert_root_frame split: if_splits)
qed

lemma check_and_handle_split_slice:
  assumes "check_and_handle_split E key nv st = Inr st'"
  shows "slice st' = slice st \<and> clock st' = clock st"
proof -
  from assms obtain b n where c: "buf st = Some b" "blocks st b = Some n"
    by (auto simp: check_and_handle_split_def ebind_eq_Inr get_data_eq_Inr)
  from assms c obtain full where f: "is_full_check E n key nv = Inr full"
    by (auto simp: check_and_handle_split_def get_data_def ebind_eq_Inr)
  obtain l r m where sp: "node_split E (block_size E) n = (l, r, m)"
    by (cases "node_split E (block_size E) n")
  show ?thesis
  proof (cases full)
    case False
    with assms c f show ?thesis by (simp add: check_and_handle_split_def get_data_def)
  next
    case True
    with assms c f sp show ?thesis
      by (auto simp: check_and_handle_split_def get_data_def Let_def ebind_eq_Inr
               dest!: insert_root_frame split: if_splits option.splits)
  qed
qed

lemma release_all_slice:
  "release_all E upd old res st = Inr st' \<Longrightarrow> slice st' = slice st"
  by (auto simp: release_all_def Let_def ebind_eq_Inr split: if_splits option.splits)

lemma check_and_handle_split_cases:
  assumes "check_and_handle_split E key nv st = Inr st'"
  obtains
    (idle) b n where "buf st = Some b" "blocks st b = Some n"
      "is_full_check E n key nv = Inr False" "st' = st"
  | (root) b n l r m ln where "buf st = Some b" "blocks st b = Some n"
      "is_full_check E n key nv = Inr True"
      "node_split E (block_size E) n = (l, r, m)"
      "last_buf st = None" "sb_buf st"
      "ln = (case internal_insert E (block_size E) (internal_init E (block_size E)) m b
                    (Blk (next_free st)) of
               None \<Rightarrow> internal_init E (block_size E) | Some x \<Rightarrow> x)"
      "internal_insert E (block_size E) (internal_init E (block_size E)) m b
         (Blk (next_free st)) = None \<longrightarrow> \<not> assertions E"
      "st' = st\<lparr>blocks := (blocks st)(b \<mapsto> l, Blk (next_free st) \<mapsto> r,
                                  Blk (Suc (next_free st)) \<mapsto> ln),
                 root_block := Blk (Suc (next_free st)),
                 next_free := Suc (Suc (next_free st)),
                 pm_btree_depth := pm_btree_depth st + 1,
                 sb_buf := False,
                 last_buf := Some (Blk (Suc (next_free st))),
                 buf := Some (if key \<le> m then b else Blk (next_free st))\<rparr>"
  | (inner) b n l r m p pn ln where "buf st = Some b" "blocks st b = Some n"
      "is_full_check E n key nv = Inr True"
      "node_split E (block_size E) n = (l, r, m)"
      "last_buf st = Some p"
      "((blocks st)(b \<mapsto> l, Blk (next_free st) \<mapsto> r)) p = Some pn"
      "ln = (case internal_insert E (block_size E) pn m b (Blk (next_free st)) of
               None \<Rightarrow> pn | Some x \<Rightarrow> x)"
      "internal_insert E (block_size E) pn m b (Blk (next_free st)) = None \<longrightarrow> \<not> assertions E"
      "st' = st\<lparr>blocks := (blocks st)(b \<mapsto> l, Blk (next_free st) \<mapsto> r, p \<mapsto> ln),
                 next_free := Suc (next_free st),
                 buf := Some (if key \<le> m then b else Blk (next_free st))\<rparr>"
proof -
  from assms obtain b n where c: "buf st = Some b" "blocks st b = Some n"
    by (auto simp: check_and_handle_split_def ebind_eq_Inr get_data_eq_Inr)
  from assms c obtain full where f: "is_full_check E n key nv = Inr full"
    by (auto simp: check_and_handle_split_def get_data_def ebind_eq_Inr)
  obtain l r m where sp: "node_split E (block_size E) n = (l, r, m)"
    by (cases "node_split E (block_size E) n")
  show thesis
  proof (cases full)
    case False
    with assms c f have "st' = st" by (simp add: check_and_handle_split_def get_data_def)
    with c f False show thesis by (intro idle) simp_all
  next
    case True
    show thesis
    proof (cases "last_buf st")
      case None
      from assms c f sp True None have sb: "sb_buf st"
        by (auto simp: check_and_handle_split_def get_data_def Let_def insert_root_def
                       rassert_def ebind_eq_Inr split: if_splits)
      show thesis
      proof (cases "internal_insert E (block_size E) (internal_init E (block_size E)) m b
                      (Blk (next_free st))")
        case none: None
        with assms c f sp True None sb show thesis
          by (intro root [of b n l r m "internal_init E (block_size E)"])
             (auto simp: check_and_handle_split_def get_data_def Let_def insert_root_def
                       rassert_def sized_strcmp_le split: if_splits)
      next
        case (Some x)
        with assms c f sp True None sb show thesis
          by (intro root [of b n l r m x])
             (auto simp: check_and_handle_split_def get_data_def Let_def insert_root_def
                       rassert_def sized_strcmp_le split: if_splits)
      qed
    next
      case (Some p)
      show thesis
      proof (cases "((blocks st)(b \<mapsto> l, Blk (next_free st) \<mapsto> r)) p")
        case None
        with Some assms c f sp True show thesis
          by (simp add: check_and_handle_split_def get_data_def Let_def del: fun_upd_apply)
      next
        case pn: (Some pn)
        show thesis
        proof (cases "internal_insert E (block_size E) pn m b (Blk (next_free st))")
          case None
          have "(blocks st)(b \<mapsto> l, Blk (next_free st) \<mapsto> r, p \<mapsto> pn) =
                (blocks st)(b \<mapsto> l, Blk (next_free st) \<mapsto> r)"
            using pn fun_upd_triv [of "(blocks st)(b \<mapsto> l, Blk (next_free st) \<mapsto> r)" p]
            by (simp del: fun_upd_apply)
          with None pn Some assms c f sp True show thesis
            by (intro inner [of b n l r m p pn pn])
               (auto simp: check_and_handle_split_def get_data_def Let_def
                         rassert_def sized_strcmp_le split: if_splits simp del: fun_upd_apply)
        next
          case x: (Some x)
          with pn Some assms c f sp True show thesis
            by (intro inner [of b n l r m p pn x])
               (auto simp: check_and_handle_split_def get_data_def Let_def
                         rassert_def sized_strcmp_le split: if_splits simp del: fun_upd_apply)
        qed
      qed
    qed
  qed
qed

lemma check_and_handle_underfull_cases:
  assumes "check_and_handle_underfull E key st = Inr st'"
  obtains
    (idle) b n where "buf st = Some b" "blocks st b = Some n"
      "last_buf st = None \<or> \<not> node_is_underfull E (block_size E) n" "st' = st"
  | (merge_left) b n p pn cmp sib sn l r k where "buf st = Some b" "blocks st b = Some n"
      "last_buf st = Some p" "blocks st p = Some pn" "node_is_underfull E (block_size E) n"
      "internal_sibling E pn key = (cmp, sib)" "sib \<notin> set (held st)" "blocks st sib = Some sn"
      "node_is_mergable E (block_size E) n sn pn" "cmp < 0"
      "node_merge E (block_size E) n sn pn = (l, r, k)"
      "\<not> internal_is_singleton E pn"
      "st' = st\<lparr>blocks := (blocks st)(b \<mapsto> l, sib \<mapsto> r,
                                  p \<mapsto> internal_remove E (block_size E) pn k),
                 deleted := insert b (deleted st),
                 buf := Some sib\<rparr>"
  | (collapse_left) b n p pn cmp sib sn l r k where "buf st = Some b" "blocks st b = Some n"
      "last_buf st = Some p" "blocks st p = Some pn" "node_is_underfull E (block_size E) n"
      "internal_sibling E pn key = (cmp, sib)" "sib \<notin> set (held st)" "blocks st sib = Some sn"
      "node_is_mergable E (block_size E) n sn pn" "cmp < 0"
      "node_merge E (block_size E) n sn pn = (l, r, k)"
      "internal_is_singleton E pn" "sb_buf st"
      "st' = st\<lparr>blocks := (blocks st)(b \<mapsto> l, sib \<mapsto> r),
                 root_block := sib,
                 deleted := insert p (insert b (deleted st)),
                 pm_btree_depth := pm_btree_depth st - 1,
                 sb_buf := False,
                 buf := Some sib\<rparr>"
  | (merge_right) b n p pn cmp sib sn l r k where "buf st = Some b" "blocks st b = Some n"
      "last_buf st = Some p" "blocks st p = Some pn" "node_is_underfull E (block_size E) n"
      "internal_sibling E pn key = (cmp, sib)" "sib \<notin> set (held st)" "blocks st sib = Some sn"
      "node_is_mergable E (block_size E) n sn pn" "\<not> cmp < 0"
      "node_merge E (block_size E) sn n pn = (l, r, k)"
      "\<not> internal_is_singleton E pn"
      "st' = st\<lparr>blocks := (blocks st)(sib \<mapsto> l, b \<mapsto> r,
                                  p \<mapsto> internal_remove E (block_size E) pn k),
                 deleted := insert sib (deleted st)\<rparr>"
  | (collapse_right) b n p pn cmp sib sn l r k where "buf st = Some b" "blocks st b = Some n"
      "last_buf st = Some p" "blocks st p = Some pn" "node_is_underfull E (block_size E) n"
      "internal_sibling E pn key = (cmp, sib)" "sib \<notin> set (held st)" "blocks st sib = Some sn"
      "node_is_mergable E (block_size E) n sn pn" "\<not> cmp < 0"
      "node_merge E (block_size E) sn n pn = (l, r, k)"
      "internal_is_singleton E pn" "sb_buf st"
      "st' = st\<lparr>blocks := (blocks st)(sib \<mapsto> l, b \<mapsto> r),
                 root_block := b,
                 deleted := insert p (insert sib (deleted st)),
                 pm_btree_depth := pm_btree_depth st - 1,
                 sb_buf := False\<rparr>"
  | (level) b n p pn cmp sib sn lv n' s' k1 k2 where "buf st = Some b" "blocks st b = Some n"
      "last_buf st = Some p" "blocks st p = Some pn" "node_is_underfull E (block_size E) n"
      "internal_sibling E pn key = (cmp, sib)" "sib \<notin> set (held st)" "blocks st sib = Some sn"
      "\<not> node_is_mergable E (block_size E) n sn pn"
      "node_level E (block_size E) n sn pn = (lv, n', s', k1, k2)"
      "st' = st\<lparr>blocks := (if lv then (blocks st)(b \<mapsto> n', sib \<mapsto> s',
                                           p \<mapsto> internal_update_key E pn k1 k2)
                             else (blocks st)(b \<mapsto> n', sib \<mapsto> s'))\<rparr>"
proof -
  from assms obtain b n where c: "buf st = Some b" "blocks st b = Some n"
    by (auto simp: check_and_handle_underfull_def ebind_eq_Inr get_data_eq_Inr)
  show thesis
  proof (cases "last_buf st \<noteq> None \<and> node_is_underfull E (block_size E) n")
    case False
    with assms c have "st' = st"
      by (auto simp: check_and_handle_underfull_def get_data_def)
    with c False show thesis by (intro idle) auto
  next
    case True
    then obtain p where lp: "last_buf st = Some p" and u: "node_is_underfull E (block_size E) n"
      by auto
    with assms c obtain pn where p: "blocks st p = Some pn"
      by (auto simp: check_and_handle_underfull_def get_data_def split: option.splits)
    obtain cmp sib where s: "internal_sibling E pn key = (cmp, sib)"
      by (cases "internal_sibling E pn key")
    with assms c lp u p obtain sn where a: "acquire st sib = Inr sn"
      by (cases "acquire st sib") (auto simp: check_and_handle_underfull_def get_data_def)
    then have h: "sib \<notin> set (held st)" "blocks st sib = Some sn"
      by (auto simp: acquire_def split: if_splits option.splits)
    obtain l r k where m1: "node_merge E (block_size E) n sn pn = (l, r, k)"
      by (cases "node_merge E (block_size E) n sn pn")
    obtain l' r' k' where m2: "node_merge E (block_size E) sn n pn = (l', r', k')"
      by (cases "node_merge E (block_size E) sn n pn")
    obtain lv n' s' k1 k2 where lv: "node_level E (block_size E) n sn pn = (lv, n', s', k1, k2)"
      by (cases "node_level E (block_size E) n sn pn")
    note facts = assms c lp u p s a m1 m2 lv
    show thesis
    proof (cases "node_is_mergable E (block_size E) n sn pn")
      case False
      with facts have "st' = st\<lparr>blocks := (if lv then (blocks st)(b \<mapsto> n', sib \<mapsto> s',
                                           p \<mapsto> internal_update_key E pn k1 k2)
                             else (blocks st)(b \<mapsto> n', sib \<mapsto> s'))\<rparr>"
        by (auto simp: check_and_handle_underfull_def get_data_def Let_def ebind_eq_Inr
                 split: if_splits)
      with c lp p u s h False lv show thesis by (intro level)
    next
      case mg: True
      show thesis
      proof (cases "internal_is_singleton E pn")
        case False
        show thesis
        proof (cases "cmp < 0")
          case True
          with facts mg False have "st' = st\<lparr>blocks := (blocks st)(b \<mapsto> l, sib \<mapsto> r,
                                  p \<mapsto> internal_remove E (block_size E) pn k),
                 deleted := insert b (deleted st),
                 buf := Some sib\<rparr>"
            by (auto simp: check_and_handle_underfull_def get_data_def Let_def ebind_eq_Inr
                     split: if_splits)
          with c lp p u s h mg True m1 False show thesis by (intro merge_left)
        next
          case ge: False
          with facts mg False have "st' = st\<lparr>blocks := (blocks st)(sib \<mapsto> l', b \<mapsto> r',
                                  p \<mapsto> internal_remove E (block_size E) pn k'),
                 deleted := insert sib (deleted st)\<rparr>"
            by (auto simp: check_and_handle_underfull_def get_data_def Let_def ebind_eq_Inr
                     split: if_splits)
          with c lp p u s h mg ge m2 False show thesis by (intro merge_right)
        qed
      next
        case sg: True
        show thesis
        proof (cases "cmp < 0")
          case True
          with facts mg sg have "sb_buf st \<and> st' = st\<lparr>blocks := (blocks st)(b \<mapsto> l, sib \<mapsto> r),
                 root_block := sib,
                 deleted := insert p (insert b (deleted st)),
                 pm_btree_depth := pm_btree_depth st - 1,
                 sb_buf := False,
                 buf := Some sib\<rparr>"
            by (auto simp: check_and_handle_underfull_def get_data_def Let_def ebind_eq_Inr
                        insert_root_def rassert_def split: if_splits)
          with c lp p u s h mg True m1 sg show thesis by (intro collapse_left) auto
        next
          case ge: False
          with facts mg sg have "sb_buf st \<and> st' = st\<lparr>blocks := (blocks st)(sib \<mapsto> l', b \<mapsto> r'),
                 root_block := b,
                 deleted := insert p (insert sib (deleted st)),
                 pm_btree_depth := pm_btree_depth st - 1,
                 sb_buf := False\<rparr>"
            by (auto simp: check_and_handle_underfull_def get_data_def Let_def ebind_eq_Inr
                        insert_root_def rassert_def split: if_splits)
          with c lp p u s h mg ge m2 sg show thesis by (intro collapse_right) auto
        qed
      qed
    qed
  qed
qed

lemma check_and_handle_split_locks:
  assumes "check_and_handle_split E key nv st = Inr st'"
  shows "(sb_buf st' \<longrightarrow> sb_buf st \<and> root_block st' = root_block st \<and> last_buf st' = last_buf st)
       \<and> (last_buf st \<noteq> None \<longrightarrow> last_buf st' = last_buf st \<and> sb_buf st' = sb_buf st)
       \<and> (last_buf st' = None \<longrightarrow> st' = st)"
  using assms by (cases rule: check_and_handle_split_cases) simp_all

lemma check_and_handle_underfull_locks:
  assumes "check_and_handle_underfull E key st = Inr st'"
  shows "last_buf st' = last_buf st
       \<and> (sb_buf st' \<longrightarrow> sb_buf st \<and> root_block st' = root_block st)
       \<and> (\<not> sb_buf st \<longrightarrow> \<not> sb_buf st')
       \<and> (last_buf st = None \<longrightarrow> st' = st)"
  using assms by (cases rule: check_and_handle_underfull_cases) simp_all

lemma ebind_InrE:
  assumes "ebind m f = Inr y"
  obtains x where "m = Inr x" "f x = Inr y"
  using assms by (cases m) simp_all

lemma acquire_eq_Inr:
  "acquire st i = Inr n \<longleftrightarrow> i \<notin> set (held st) \<and> blocks st i = Some n"
  by (simp add: acquire_def split: option.splits)

lemma descend_step_Inr:
  fixes E :: "('n, 'v, 's) env"
  assumes "descend_step E key st = Inr st'"
  obtains st1 st2 b node where
    "check_and_handle_split E key None st = Inr st1"
    "check_and_handle_underfull E key st1 = Inr st2"
    "buf st2 = Some b" "blocks st2 b = Some node"
    "internal_lookup E node key \<notin> set (held (st2\<lparr>sb_buf := sb_buf st2 \<and> last_buf st2 = None\<rparr>))"
    "blocks st2 (internal_lookup E node key) \<noteq> None"
    "st' = st2\<lparr>sb_buf := sb_buf st2 \<and> last_buf st2 = None,
                last_buf := Some b, buf := Some (internal_lookup E node key)\<rparr>"
proof -
  from assms obtain st1 where s1: "check_and_handle_split E key None st = Inr st1"
    and r1: "ebind (check_and_handle_underfull E key st1) (\<lambda>st2.
     let st3 = (if sb_buf st2 \<and> last_buf st2 \<noteq> None then st2\<lparr>sb_buf := False\<rparr> else st2) in
     ebind (get_data 208 (buf st3) st3) (\<lambda>(b, node).
     let node_id = internal_lookup E node key in
     ebind (rassert E 209 (node_id \<noteq> NULL_BLOCK_ID \<and> node_id \<noteq> SUPERBLOCK_ID)) (\<lambda>_.
     ebind (acquire st3 node_id) (\<lambda>_.
     Inr (st3\<lparr>last_buf := Some b, buf := Some node_id\<rparr>))))) = Inr st'"
    unfolding descend_step_def by (rule ebind_InrE)
  define st3 where "st3 = (\<lambda>st2::('n, 's) state. st2\<lparr>sb_buf := sb_buf st2 \<and> last_buf st2 = None\<rparr>)"
  have st3: "(if sb_buf st2 \<and> last_buf st2 \<noteq> None then st2\<lparr>sb_buf := False\<rparr> else st2) = st3 st2"
    for st2 :: "('n, 's) state"
    by (cases st2) (auto simp: st3_def)
  from r1 obtain st2 where s2: "check_and_handle_underfull E key st1 = Inr st2"
    and r2: "ebind (get_data 208 (buf (st3 st2)) (st3 st2)) (\<lambda>(b, node).
     ebind (rassert E 209 (internal_lookup E node key \<noteq> NULL_BLOCK_ID
                           \<and> internal_lookup E node key \<noteq> SUPERBLOCK_ID)) (\<lambda>_.
     ebind (acquire (st3 st2) (internal_lookup E node key)) (\<lambda>_.
     Inr ((st3 st2)\<lparr>last_buf := Some b, buf := Some (internal_lookup E node key)\<rparr>)))) = Inr st'"
    unfolding st3 Let_def by (rule ebind_InrE)
  from r2 obtain x where g: "get_data 208 (buf (st3 st2)) (st3 st2) = Inr x"
    and r3: "(case x of (b, node) \<Rightarrow>
     ebind (rassert E 209 (internal_lookup E node key \<noteq> NULL_BLOCK_ID
                           \<and> internal_lookup E node key \<noteq> SUPERBLOCK_ID)) (\<lambda>_.
     ebind (acquire (st3 st2) (internal_lookup E node key)) (\<lambda>_.
     Inr ((st3 st2)\<lparr>last_buf := Some b, buf := Some (internal_lookup E node key)\<rparr>)))) = Inr st'"
    by (rule ebind_InrE)
  obtain b node where x: "x = (b, node)" by (cases x)
  from g x have c: "buf st2 = Some b" "blocks st2 b = Some node"
    by (simp_all add: get_data_eq_Inr st3_def)
  from r3 x have "ebind (rassert E 209 (internal_lookup E node key \<noteq> NULL_BLOCK_ID
                           \<and> internal_lookup E node key \<noteq> SUPERBLOCK_ID)) (\<lambda>_.
     ebind (acquire (st3 st2) (internal_lookup E node key)) (\<lambda>_.
     Inr ((st3 st2)\<lparr>last_buf := Some b, buf := Some (internal_lookup E node key)\<rparr>))) = Inr st'"
    by simp
  then obtain u where
    r4: "ebind (acquire (st3 st2) (internal_lookup E node key)) (\<lambda>_.
     Inr ((st3 st2)\<lparr>last_buf := Some b, buf := Some (internal_lookup E node key)\<rparr>)) = Inr st'"
    by (rule ebind_InrE)
  then have "\<exists>sn. acquire (st3 st2) (internal_lookup E node key) = Inr sn
      \<and> (st3 st2)\<lparr>last_buf := Some b, buf := Some (internal_lookup E node key)\<rparr> = st'"
    by (simp add: ebind_eq_Inr)
  then obtain sn where a: "acquire (st3 st2) (internal_lookup E node key) = Inr sn"
    and e: "st' = (st3 st2)\<lparr>last_buf := Some b, buf := Some (internal_lookup E node key)\<rparr>"
    by blast
  from a have k: "internal_lookup E node key \<notin> set (held (st3 st2))"
    "blocks st2 (internal_lookup E node key) \<noteq> None"
    by (simp_all add: acquire_eq_Inr st3_def)
  show thesis
  proof (rule that [OF s1 s2 c])
    show "internal_lookup E node key
            \<notin> set (held (st2\<lparr>sb_buf := sb_buf st2 \<and> last_buf st2 = None\<rparr>))"
      using k(1) unfolding st3_def .
    show "blocks st2 (internal_lookup E node key) \<noteq> None" by (rule k(2))
    show "st' = st2\<lparr>sb_buf := sb_buf st2 \<and> last_buf st2 = None,
                last_buf := Some b, buf := Some (internal_lookup E node key)\<rparr>"
      using e unfolding st3_def .
  qed
qed

lemma descend_step_locks:
  assumes "descend_step E key st = Inr st'"
  shows "last_buf st' \<noteq> None
       \<and> (last_buf st \<noteq> None \<longrightarrow> \<not> sb_buf st')
       \<and> (sb_buf st' \<longrightarrow> sb_buf st \<and> last_buf st = None \<and> last_buf st' = buf st
                        \<and> root_block st' = root_block st)"
  using assms
proof (cases rule: descend_step_Inr)
  case (1 st1 st2 b node)
  note sp = check_and_handle_split_locks [OF 1(1)]
  note un = check_and_handle_underfull_locks [OF 1(2)]
  have a: "last_buf st' = Some b" "sb_buf st' = (sb_buf st2 \<and> last_buf st2 = None)"
    "root_block st' = root_block st2"
    by (simp_all add: 1(7))
  have "\<not> sb_buf st'" if "last_buf st \<noteq> None"
  proof -
    from sp that have "last_buf st1 = last_buf st" by blast
    moreover from un have "last_buf st2 = last_buf st1" by blast
    ultimately have "last_buf st2 \<noteq> None" using that by simp
    with a(2) show ?thesis by simp
  qed
  moreover have "sb_buf st \<and> last_buf st = None \<and> last_buf st' = buf st
                 \<and> root_block st' = root_block st" if "sb_buf st'"
  proof -
    from that a(2) have s2: "sb_buf st2" "last_buf st2 = None" by simp_all
    from un have "last_buf st2 = last_buf st1" by blast
    with s2 have l1: "last_buf st1 = None" by simp
    from un l1 have e2: "st2 = st1" by blast
    from sp l1 have e1: "st1 = st" by blast
    from s2 a 1(3) show ?thesis unfolding e2 e1 by simp
  qed
  ultimately show ?thesis using a(1) by blast
qed

lemma loop_head_near_root:
  assumes "loop_head E key st s" and "sb_buf st \<longrightarrow> near_root st"
  shows "sb_buf s \<longrightarrow> near_root s"
  using assms
proof (induction rule: loop_head.induct)
  case start
  then show ?case by simp
next
  case (step s b node s')
  note l = descend_step_locks [OF step.hyps(4)]
  show ?case
  proof
    assume "sb_buf s'"
    with l have f: "sb_buf s" "last_buf s = None" "last_buf s' = buf s" "root_block s' = root_block s"
      by simp_all
    with step.IH [OF step.prems] have "buf s = Some (root_block s)"
      by (simp add: near_root_def)
    with f show "near_root s'" by (simp add: near_root_def)
  qed
qed

subsection \<open>Room in the parent\<close>

lemma ebind_eq_Inl:
  "ebind m f = Inl e \<longleftrightarrow> m = Inl e \<or> (\<exists>x. m = Inr x \<and> f x = Inl e)"
  by (cases m) simp_all

lemma is_full_check_None:
  "is_full_check E n key None = Inr f \<Longrightarrow> \<not> is_leaf E n \<and> f = internal_is_full E n"
  by (auto simp: is_full_check_def rassert_def ebind_eq_Inr split: if_splits)

lemma is_full_check_not_75: "is_full_check E n key nv \<noteq> Inl (Rassert 75)"
  by (cases nv) (auto simp: is_full_check_def rassert_def)

lemma insert_root_not_75: "insert_root E i st \<noteq> Inl (Rassert 75)"
  by (auto simp: insert_root_def rassert_def)

lemma fresh_existing: "fresh st \<Longrightarrow> blocks st b = Some n \<Longrightarrow>
   b \<noteq> Blk (next_free st) \<and> b \<noteq> Blk (Suc (next_free st))"
  by (auto simp: fresh_def)

lemma room_contract_insert:
  "room_contract E \<Longrightarrow> \<not> internal_is_full E n \<Longrightarrow>
     internal_insert E (block_size E) n m l r \<noteq> None"
  unfolding room_contract_def by fast

lemma room_contract_init:
  "room_contract E \<Longrightarrow> \<not> internal_is_full E (internal_init E (block_size E))"
  unfolding room_contract_def by fast

lemma room_contract_split:
  "room_contract E \<Longrightarrow> internal_is_full E n \<Longrightarrow> node_split E (block_size E) n = (l, r, m) \<Longrightarrow>
     \<not> internal_is_full E l \<and> \<not> internal_is_full E r"
  unfolding room_contract_def by fast

lemma room_contract_merge:
  "room_contract E \<Longrightarrow> node_is_underfull E (block_size E) n \<Longrightarrow>
     node_is_mergable E (block_size E) n s p \<Longrightarrow>
     node_merge E (block_size E) n s p = (l, r, k) \<or> node_merge E (block_size E) s n p = (l, r, k) \<Longrightarrow>
     \<not> internal_is_full E r"
  unfolding room_contract_def by fast

lemma room_contract_level:
  "room_contract E \<Longrightarrow> node_is_underfull E (block_size E) n \<Longrightarrow>
     \<not> node_is_mergable E (block_size E) n s p \<Longrightarrow>
     node_level E (block_size E) n s p = (lv, n', s', k1, k2) \<Longrightarrow>
     \<not> internal_is_full E n'"
  unfolding room_contract_def by fast

lemma check_and_handle_split_not_75:
  assumes c: "room_contract E" and r: "parent_has_room E st"
  shows "check_and_handle_split E key nv st \<noteq> Inl (Rassert 75)"
proof (cases "buf st")
  case None
  then show ?thesis by (simp add: check_and_handle_split_def get_data_def)
next
  case (Some b)
  show ?thesis
  proof (cases "blocks st b")
    case None
    with Some show ?thesis by (simp add: check_and_handle_split_def get_data_def)
  next
    case n: (Some n)
    show ?thesis
    proof (cases "is_full_check E n key nv")
      case (Inl e)
      with Some n is_full_check_not_75 [of E n key nv] show ?thesis
        by (simp add: check_and_handle_split_def get_data_def)
    next
      case (Inr full)
      obtain l r m where sp: "node_split E (block_size E) n = (l, r, m)"
        by (cases "node_split E (block_size E) n")
      show ?thesis
      proof (cases full)
        case False
        with Some n Inr show ?thesis by (simp add: check_and_handle_split_def get_data_def)
      next
        case True
        show ?thesis
        proof (cases "last_buf st")
          case None
          from room_contract_insert [OF c room_contract_init [OF c],
                 where m = m and l = b and r = "Blk (next_free st)"]
          obtain x where "internal_insert E (block_size E) (internal_init E (block_size E)) m b
                         (Blk (next_free st)) = Some x" by auto
          with Some n Inr True sp None show ?thesis
            by (cases "sb_buf st")
               (simp_all add: check_and_handle_split_def get_data_def Let_def insert_root_def
                          rassert_def)
        next
          case p: (Some p)
          from r p Some obtain pn where pn: "blocks st p = Some pn" "\<not> internal_is_full E pn"
            "p \<noteq> b" "fresh st"
            by (auto simp: parent_has_room_def)
          from fresh_existing [OF pn(4) pn(1)] have "p \<noteq> Blk (next_free st)" by simp
          with pn have look: "((blocks st)(b \<mapsto> l, Blk (next_free st) \<mapsto> r)) p = Some pn"
            by simp
          from room_contract_insert [OF c pn(2), where m = m and l = b and r = "Blk (next_free st)"]
          obtain x where "internal_insert E (block_size E) pn m b (Blk (next_free st)) = Some x"
            by auto
          with Some n Inr True sp p look show ?thesis
            by (simp add: check_and_handle_split_def get_data_def Let_def del: fun_upd_apply)
        qed
      qed
    qed
  qed
qed

lemma check_and_handle_split_keeps_room:
  assumes c: "room_contract E" and r: "parent_has_room E st"
    and s: "check_and_handle_split E key None st = Inr st'"
  shows "cursor_has_room E st'"
  using s
proof (cases rule: check_and_handle_split_cases)
  case (idle b n)
  from is_full_check_None [OF idle(3)] have "\<not> internal_is_full E n" by simp
  with idle r show ?thesis
    by (auto simp: cursor_has_room_def parent_has_room_def)
next
  case (root b n l r' m ln)
  from r have f: "fresh st" by (simp add: parent_has_room_def)
  note ne = fresh_existing [OF f root(2)]
  from is_full_check_None [OF root(3)] have "internal_is_full E n" by simp
  from room_contract_split [OF c this root(4)]
  have h: "\<not> internal_is_full E l" "\<not> internal_is_full E r'" by simp_all
  have fr: "fresh st'"
    using f ne root(2) by (auto simp: fresh_def root(9))
  show ?thesis
  proof (cases "key \<le> m")
    case True
    with ne h fr show ?thesis
      by (auto simp: cursor_has_room_def root(9))
  next
    case False
    with ne h fr show ?thesis
      by (auto simp: cursor_has_room_def root(9))
  qed
next
  case (inner b n l r' m p pn ln)
  from r have f: "fresh st" by (simp add: parent_has_room_def)
  note ne = fresh_existing [OF f inner(2)]
  from r inner(1,5) obtain pn0 where p: "blocks st p = Some pn0" "p \<noteq> b"
    by (auto simp: parent_has_room_def)
  from fresh_existing [OF f p(1)] have pne: "p \<noteq> Blk (next_free st)" by simp
  from is_full_check_None [OF inner(3)] have "internal_is_full E n" by simp
  from room_contract_split [OF c this inner(4)]
  have h: "\<not> internal_is_full E l" "\<not> internal_is_full E r'" by simp_all
  have fr: "fresh st'"
    using f ne inner(2) p(1) by (auto simp: fresh_def inner(9))
  show ?thesis
  proof (cases "key \<le> m")
    case True
    with ne h fr p pne inner(5) show ?thesis
      by (auto simp: cursor_has_room_def inner(9))
  next
    case False
    with ne h fr p pne inner(5) show ?thesis
      by (auto simp: cursor_has_room_def inner(9))
  qed
qed

lemma held_last_buf: "last_buf st = Some p \<Longrightarrow> p \<in> set (held st)"
  by (simp add: held_def)

lemma held_buf: "buf st = Some b \<Longrightarrow> b \<in> set (held st)"
  by (simp add: held_def)

lemma check_and_handle_underfull_keeps_room:
  assumes c: "room_contract E" and r: "cursor_has_room E st"
    and s: "check_and_handle_underfull E key st = Inr st'"
  shows "cursor_has_room E st'"
  using s
proof (cases rule: check_and_handle_underfull_cases)
  case (idle b n)
  with r show ?thesis by simp
next
  case (merge_left b n p pn cmp sib sn l r' k)
  from r merge_left(1,3) have f: "fresh st" and pb: "p \<noteq> b"
    by (auto simp: cursor_has_room_def)
  from merge_left(7) held_last_buf [OF merge_left(3)] have ps: "p \<noteq> sib" by auto
  from room_contract_merge [OF c merge_left(5,9) disjI1 [OF merge_left(11)]]
  have h: "\<not> internal_is_full E r'" .
  have fr: "fresh st'"
    using f merge_left(2,4,8) by (auto simp: fresh_def merge_left(13))
  with h ps show ?thesis
    by (auto simp: cursor_has_room_def merge_left(13) merge_left(3))
next
  case (collapse_left b n p pn cmp sib sn l r' k)
  from r collapse_left(1,3) have f: "fresh st" and pb: "p \<noteq> b"
    by (auto simp: cursor_has_room_def)
  from collapse_left(7) held_last_buf [OF collapse_left(3)] have ps: "p \<noteq> sib" by auto
  from room_contract_merge [OF c collapse_left(5,9) disjI1 [OF collapse_left(11)]]
  have h: "\<not> internal_is_full E r'" .
  have fr: "fresh st'"
    using f collapse_left(2,4,8) by (auto simp: fresh_def collapse_left(14))
  with h ps show ?thesis
    by (auto simp: cursor_has_room_def collapse_left(14) collapse_left(3))
next
  case (merge_right b n p pn cmp sib sn l r' k)
  from r merge_right(1,3) have f: "fresh st" and pb: "p \<noteq> b"
    by (auto simp: cursor_has_room_def)
  from room_contract_merge [OF c merge_right(5,9) disjI2 [OF merge_right(11)]]
  have h: "\<not> internal_is_full E r'" .
  have fr: "fresh st'"
    using f merge_right(2,4,8) by (auto simp: fresh_def merge_right(13))
  with h pb show ?thesis
    by (auto simp: cursor_has_room_def merge_right(13) merge_right(1) merge_right(3))
next
  case (collapse_right b n p pn cmp sib sn l r' k)
  from r collapse_right(1,3) have f: "fresh st" and pb: "p \<noteq> b"
    by (auto simp: cursor_has_room_def)
  from room_contract_merge [OF c collapse_right(5,9) disjI2 [OF collapse_right(11)]]
  have h: "\<not> internal_is_full E r'" .
  have fr: "fresh st'"
    using f collapse_right(2,4,8) by (auto simp: fresh_def collapse_right(14))
  with h pb show ?thesis
    by (auto simp: cursor_has_room_def collapse_right(14) collapse_right(1) collapse_right(3))
next
  case (level b n p pn cmp sib sn lv n' s' k1 k2)
  from r level(1,3) have f: "fresh st" and pb: "p \<noteq> b"
    by (auto simp: cursor_has_room_def)
  from level(7) held_buf [OF level(1)] have bs: "sib \<noteq> b" by auto
  from room_contract_level [OF c level(5,9,10)]
  have h: "\<not> internal_is_full E n'" .
  have fr: "fresh st'"
    using f level(2,4,8) by (auto simp: fresh_def level(11))
  with h pb bs show ?thesis
    by (auto simp: cursor_has_room_def level(11) level(1) level(3))
qed

lemma check_and_handle_underfull_not_75:
  "check_and_handle_underfull E key st \<noteq> Inl (Rassert 75)"
proof (cases "get_data 92 (buf st) st")
  case (Inl e)
  then show ?thesis
    by (auto simp: check_and_handle_underfull_def get_data_def split: option.splits)
next
  case (Inr x)
  obtain b n where x: "x = (b, n)" by (cases x)
  show ?thesis
  proof (cases "last_buf st \<noteq> None \<and> node_is_underfull E (block_size E) n")
    case False
    with Inr x show ?thesis by (auto simp: check_and_handle_underfull_def)
  next
    case True
    then obtain p where lp: "last_buf st = Some p" and u: "node_is_underfull E (block_size E) n"
      by auto
    show ?thesis
    proof (cases "blocks st p")
      case None
      with Inr x lp u show ?thesis by (simp add: check_and_handle_underfull_def get_data_def)
    next
      case (Some pn)
      obtain cmp sib where s: "internal_sibling E pn key = (cmp, sib)"
        by (cases "internal_sibling E pn key")
      show ?thesis
      proof (cases "acquire st sib")
        case (Inl e)
        then have "e \<noteq> Rassert 75"
          by (auto simp: acquire_def split: if_splits option.splits)
        with Inl Inr x lp u Some s show ?thesis
          by (simp add: check_and_handle_underfull_def get_data_def)
      next
        case a: (Inr sn)
        obtain l r k where m1: "node_merge E (block_size E) n sn pn = (l, r, k)"
          by (cases "node_merge E (block_size E) n sn pn")
        obtain l' r' k' where m2: "node_merge E (block_size E) sn n pn = (l', r', k')"
          by (cases "node_merge E (block_size E) sn n pn")
        obtain lv n' s' k1 k2 where lv: "node_level E (block_size E) n sn pn = (lv, n', s', k1, k2)"
          by (cases "node_level E (block_size E) n sn pn")
        from a Inr x lp u Some s m1 m2 lv show ?thesis
          by (simp add: check_and_handle_underfull_def get_data_def Let_def insert_root_def
                        rassert_def)
      qed
    qed
  qed
qed

lemma descend_step_keeps_room:
  assumes c: "room_contract E" and r: "parent_has_room E st"
    and s: "descend_step E key st = Inr st'"
  shows "parent_has_room E st'"
  using s
proof (cases rule: descend_step_Inr)
  case (1 st1 st2 b node)
  note r1 = check_and_handle_split_keeps_room [OF c r 1(1)]
  note r2 = check_and_handle_underfull_keeps_room [OF c r1 1(2)]
  from r2 1(3,4) have f: "fresh st2" and nf: "\<not> internal_is_full E node"
    by (auto simp: cursor_has_room_def)
  from 1(5) 1(3) have ne: "internal_lookup E node key \<noteq> b"
    by (auto simp: held_def)
  from f have "fresh st'" by (simp add: fresh_def 1(7))
  with nf ne 1(4) show ?thesis
    by (simp add: parent_has_room_def 1(7))
qed

lemma descend_step_not_75:
  assumes c: "room_contract E" and r: "parent_has_room E st"
  shows "descend_step E key st \<noteq> Inl (Rassert 75)"
proof (cases "check_and_handle_split E key None st")
  case (Inl e)
  with check_and_handle_split_not_75 [OF c r, of key None] show ?thesis
    by (simp add: descend_step_def)
next
  case s1: (Inr st1)
  show ?thesis
  proof (cases "check_and_handle_underfull E key st1")
    case (Inl e)
    with s1 check_and_handle_underfull_not_75 [of E key st1] show ?thesis
      by (simp add: descend_step_def)
  next
    case s2: (Inr st2)
    with s1 show ?thesis
      by (auto simp: descend_step_def Let_def get_data_def acquire_def rassert_def ebind_eq_Inl
               split: option.splits if_splits)
  qed
qed

lemma descend_room:
  assumes c: "room_contract E"
  shows "parent_has_room E st \<Longrightarrow>
     descend E key fuel st \<noteq> Inl (Rassert 75)
     \<and> (\<forall>st'. descend E key fuel st = Inr st' \<longrightarrow> parent_has_room E st')"
proof (induction fuel arbitrary: st)
  case 0
  then show ?case
    by (auto simp: get_data_def ebind_eq_Inl ebind_eq_Inr split: option.splits if_splits)
next
  case (Suc fuel)
  show ?case
  proof (cases "get_data 190 (buf st) st")
    case (Inl e)
    then show ?thesis by (auto simp: get_data_def split: option.splits)
  next
    case (Inr x)
    obtain b node where x: "x = (b, node)" by (cases x)
    show ?thesis
    proof (cases "is_internal E node")
      case False
      with Inr x Suc.prems show ?thesis by simp
    next
      case True
      show ?thesis
      proof (cases "descend_step E key st")
        case (Inl e)
        with descend_step_not_75 [OF c Suc.prems, of key] Inr x True show ?thesis by simp
      next
        case s: (Inr s)
        from Suc.IH [OF descend_step_keeps_room [OF c Suc.prems s]] Inr x True s
        show ?thesis by simp
      qed
    qed
  qed
qed

lemma loop_head_room:
  assumes c: "room_contract E"
  shows "loop_head E key st s \<Longrightarrow> parent_has_room E st \<Longrightarrow> parent_has_room E s"
  by (induction rule: loop_head.induct) (auto intro: descend_step_keeps_room [OF c])

lemma update_leaf_not_75:
  assumes c: "room_contract E" and r: "parent_has_room E st"
  shows "update_leaf E key upd kf ex nv cs st \<noteq> Inl (Rassert 75)"
proof (cases upd)
  case False
  then show ?thesis by (simp add: update_leaf_def)
next
  case True
  show ?thesis
  proof (cases nv)
    case None
    with True check_and_handle_underfull_not_75 [of E key] show ?thesis
      by (auto simp: update_leaf_def get_data_def ebind_eq_Inl split: option.splits)
  next
    case (Some v)
    show ?thesis
    proof (cases "check_and_handle_split E key (Some v) st")
      case (Inl e)
      with check_and_handle_split_not_75 [OF c r, of key "Some v"] True Some show ?thesis
        by (simp add: update_leaf_def)
    next
      case (Inr st1)
      with True Some check_and_handle_underfull_not_75 [of E key] show ?thesis
        by (auto simp: update_leaf_def get_data_def ebind_eq_Inl Let_def
                 split: option.splits prod.splits)
    qed
  qed
qed

lemma release_all_not_75: "release_all E upd old res st \<noteq> Inl (Rassert 75)"
  by (auto simp: release_all_def rassert_def Let_def ebind_eq_Inl split: option.splits)

lemma apply_at_leaf_not_75:
  assumes c: "room_contract E" and r: "parent_has_room E st"
  shows "apply_at_leaf E key st \<noteq> Inl (Rassert 75)"
proof
  assume a: "apply_at_leaf E key st = Inl (Rassert 75)"
  have 1: "acquire_old_large E old \<noteq> Inl (Rassert 75)" for old
    by (auto simp: acquire_old_large_def rassert_def Let_def split: option.splits)
  have 2: "check_operate_result E res \<noteq> Inl (Rassert 75)" for res
    by (auto simp: check_operate_result_def rassert_def split: option.splits)
  from a 1 2 update_leaf_not_75 [OF c r, of key] release_all_not_75 [of E] show False
    by (auto simp: apply_at_leaf_def get_data_def Let_def ebind_eq_Inl
             split: option.splits prod.splits if_splits)
qed

lemma get_root_room:
  assumes "fresh st0"
    and "get_root E (st0\<lparr>sb_buf := True, last_buf := None, buf := None\<rparr>) = Inr st1"
  shows "parent_has_room E st1"
  using assms
  by (auto simp: get_root_def insert_root_def rassert_def Let_def ebind_eq_Inr acquire_def
                 parent_has_room_def fresh_def split: if_splits option.splits)

lemma get_root_not_75: "get_root E st \<noteq> Inl (Rassert 75)"
  by (auto simp: get_root_def insert_root_def rassert_def Let_def ebind_eq_Inl acquire_def
           split: if_splits option.splits)

lemma pairs_le_size: "length (pairs_of n) \<le> t_size n"
  by (cases n) simp_all

lemma t_split_room:
  assumes "t_internal_is_full n" and "t_split bs n = (l, r, m)"
  shows "\<not> t_internal_is_full l \<and> \<not> t_internal_is_full r"
proof (cases n)
  case (TLeaf es)
  with assms(1) show ?thesis by (simp add: t_internal_is_full_def)
next
  case (TInternal ps c)
  with assms(1) have len: "length ps = 5" by (simp add: t_internal_is_full_def)
  then have d: "length (drop 2 ps) = 3" by simp
  then obtain x rest where dr: "drop 2 ps = x # rest" by (cases "drop 2 ps") auto
  with d have lr: "length rest = 2" by simp
  obtain k c' where x: "x = (k, c')" by (cases x)
  from assms(2) TInternal len dr x have "l = TInternal (take 2 ps) c'" "r = TInternal rest c"
    by simp_all
  with len lr show ?thesis by (simp add: t_internal_is_full_def)
qed

lemma t_merge_room:
  assumes "t_merge bs a b p = (l, r, k)" and "t_size a + t_size b < 4"
  shows "\<not> t_internal_is_full r"
proof (cases a)
  case (TLeaf es)
  with assms(1) show ?thesis by (auto simp: t_internal_is_full_def)
next
  case (TInternal ps c)
  with assms(1) have "length (pairs_of r) = length ps + 1 + length (pairs_of b)" by auto
  with pairs_le_size [of b] assms(2) TInternal show ?thesis
    by (simp add: t_internal_is_full_def)
qed

lemma toy_room_contract: "room_contract (toy_env dbg oper)"
proof -
  have 1: "\<not> t_internal_is_full n \<Longrightarrow> t_internal_insert bs n m l r \<noteq> None" for n bs m l r
    by (simp add: t_internal_insert_def split: option.splits)
  have 2: "\<not> t_internal_is_full (TInternal [] NULL_BLOCK_ID)"
    by (simp add: t_internal_is_full_def)
  have 4: "t_is_underfull bs n \<Longrightarrow> t_is_mergable bs n s p \<Longrightarrow>
           t_merge bs n s p = (l, r, k) \<or> t_merge bs s n p = (l, r, k) \<Longrightarrow>
           \<not> t_internal_is_full r" for bs n s p l r k
    using t_merge_room [of bs n s p l r k] t_merge_room [of bs s n p l r k]
    by (auto simp: t_is_mergable_def add.commute)
  have 5: "t_is_underfull bs n \<Longrightarrow> t_level bs n s p = (lv, n', s', k1, k2) \<Longrightarrow>
           \<not> t_internal_is_full n'" for bs n s p lv n' s' k1 k2
    using pairs_le_size [of n]
    by (auto simp: t_is_underfull_def t_level_def t_internal_is_full_def)
  show ?thesis
    unfolding room_contract_def
  proof (intro conjI allI impI)
    fix n m l r
    assume "\<not> internal_is_full (toy_env dbg oper) n"
    then show "internal_insert (toy_env dbg oper) (block_size (toy_env dbg oper)) n m l r \<noteq> None"
      using 1 by (simp add: toy_env_def)
  next
    show "\<not> internal_is_full (toy_env dbg oper)
            (internal_init (toy_env dbg oper) (block_size (toy_env dbg oper)))"
      using 2 by (simp add: toy_env_def)
  next
    fix n l r m
    assume "internal_is_full (toy_env dbg oper) n"
      "node_split (toy_env dbg oper) (block_size (toy_env dbg oper)) n = (l, r, m)"
    then have "\<not> t_internal_is_full l \<and> \<not> t_internal_is_full r"
      using t_split_room [of n 4096 l r m] by (simp add: toy_env_def)
    then show "\<not> internal_is_full (toy_env dbg oper) l" "\<not> internal_is_full (toy_env dbg oper) r"
      by (simp_all add: toy_env_def)
  next
    fix n s p l r k
    assume "node_is_underfull (toy_env dbg oper) (block_size (toy_env dbg oper)) n"
      "node_is_mergable (toy_env dbg oper) (block_size (toy_env dbg oper)) n s p"
      "node_merge (toy_env dbg oper) (block_size (toy_env dbg oper)) n s p = (l, r, k)
       \<or> node_merge (toy_env dbg oper) (block_size (toy_env dbg oper)) s n p = (l, r, k)"
    then show "\<not> internal_is_full (toy_env dbg oper) r"
      using 4 [of 4096 n s p l r k] by (simp add: toy_env_def)
  next
    fix n s p lv n' s' k1 k2
    assume "node_is_underfull (toy_env dbg oper) (block_size (toy_env dbg oper)) n"
      "node_level (toy_env dbg oper) (block_size (toy_env dbg oper)) n s p = (lv, n', s', k1, k2)"
    then show "\<not> internal_is_full (toy_env dbg oper) n'"
      using 5 [of 4096 n s p lv n' s' k1 k2] by (simp add: toy_env_def)
  qed
qed

lemma fresh_crowded: "fresh crowded"
  by (auto simp: fresh_def crowded_def family_store_def)

subsection \<open>The superblock at the calls of insert\_root\<close>

lemma without_superblock_Inr [simp]: "\<not> without_superblock (Inr x)"
  by (simp add: without_superblock_def)

lemma is_full_check_not_29: "\<not> without_superblock (is_full_check E n key nv)"
  by (cases nv) (auto simp: without_superblock_def is_full_check_def rassert_def)

lemma get_root_not_29: "sb_buf st \<Longrightarrow> \<not> without_superblock (get_root E st)"
  by (auto simp: without_superblock_def get_root_def insert_root_def rassert_def Let_def ebind_eq_Inl acquire_def
           split: if_splits option.splits)

lemma check_and_handle_split_not_29:
  assumes h: "last_buf st = None \<longrightarrow> sb_buf st"
  shows "\<not> without_superblock (check_and_handle_split E key nv st)"
proof (cases "buf st")
  case None
  then show ?thesis by (simp add: without_superblock_def check_and_handle_split_def get_data_def)
next
  case (Some b)
  show ?thesis
  proof (cases "blocks st b")
    case None
    with Some show ?thesis by (simp add: without_superblock_def check_and_handle_split_def get_data_def)
  next
    case n: (Some n)
    show ?thesis
    proof (cases "is_full_check E n key nv")
      case (Inl e)
      with Some n is_full_check_not_29 [of E n key nv] show ?thesis
        by (simp add: without_superblock_def check_and_handle_split_def get_data_def)
    next
      case (Inr full)
      obtain l r m where sp: "node_split E (block_size E) n = (l, r, m)"
        by (cases "node_split E (block_size E) n")
      show ?thesis
      proof (cases full)
        case False
        with Some n Inr show ?thesis by (simp add: without_superblock_def check_and_handle_split_def get_data_def)
      next
        case True
        show ?thesis
        proof (cases "last_buf st")
          case None
          with h have sb: "sb_buf st" by simp
          from Some n Inr True sp None sb show ?thesis
            by (cases "internal_insert E (block_size E) (internal_init E (block_size E)) m b
                         (Blk (next_free st))")
               (simp_all add: without_superblock_def check_and_handle_split_def get_data_def Let_def insert_root_def
                          rassert_def)
        next
          case p: (Some p)
          show ?thesis
          proof (cases "((blocks st)(b \<mapsto> l, Blk (next_free st) \<mapsto> r)) p")
            case None
            with Some n Inr True sp p show ?thesis
              by (simp add: without_superblock_def check_and_handle_split_def get_data_def Let_def del: fun_upd_apply)
          next
            case pn: (Some pn)
            with Some n Inr True sp p show ?thesis
              by (cases "internal_insert E (block_size E) pn m b (Blk (next_free st))")
                 (simp_all add: without_superblock_def check_and_handle_split_def get_data_def Let_def rassert_def
                           del: fun_upd_apply)
          qed
        qed
      qed
    qed
  qed
qed

lemma release_all_not_29: "\<not> without_superblock (release_all E upd old res st)"
  by (auto simp: without_superblock_def release_all_def rassert_def Let_def ebind_eq_Inl split: option.splits)

lemma root_contract_kind: "root_contract E \<Longrightarrow> is_leaf E n \<longleftrightarrow> \<not> is_internal E n"
  unfolding root_contract_def by fast

lemma root_contract_init:
  "root_contract E \<Longrightarrow> \<not> is_internal E (leaf_init E (block_size E) t)
     \<and> \<not> leaf_is_full E (leaf_init E (block_size E) t) k v"
  unfolding root_contract_def by fast

lemma root_contract_split:
  "root_contract E \<Longrightarrow> internal_is_full E n \<Longrightarrow> node_split E (block_size E) n = (l, r, m) \<Longrightarrow>
     \<not> node_is_underfull E (block_size E) l \<and> \<not> node_is_underfull E (block_size E) r"
  unfolding root_contract_def by fast

lemma root_contract_leaf:
  "root_contract E \<Longrightarrow> leaf_is_full E n k v \<Longrightarrow> node_split E (block_size E) n = (l, r, m) \<Longrightarrow>
     leaf_insert E (block_size E) l k w t = Some x \<or> leaf_insert E (block_size E) r k w t = Some x \<Longrightarrow>
     \<not> node_is_underfull E (block_size E) x"
  unfolding root_contract_def by fast

lemma root_contract_full:
  "root_contract E \<Longrightarrow> \<not> node_is_underfull E (block_size E) n \<Longrightarrow> \<not> internal_is_singleton E n"
  unfolding root_contract_def by fast

lemma root_contract_merge:
  "root_contract E \<Longrightarrow> node_is_underfull E (block_size E) n \<Longrightarrow>
     node_is_mergable E (block_size E) n s p \<Longrightarrow>
     node_merge E (block_size E) n s p = (l, r, k) \<or> node_merge E (block_size E) s n p = (l, r, k) \<Longrightarrow>
     \<not> internal_is_singleton E r"
  unfolding root_contract_def by fast

lemma root_contract_level:
  "root_contract E \<Longrightarrow> node_is_underfull E (block_size E) n \<Longrightarrow>
     \<not> node_is_mergable E (block_size E) n s p \<Longrightarrow>
     node_level E (block_size E) n s p = (lv, n', s', k1, k2) \<Longrightarrow>
     \<not> internal_is_singleton E n'"
  unfolding root_contract_def by fast

lemma check_and_handle_split_fresh:
  assumes f: "fresh st" and s: "check_and_handle_split E key nv st = Inr st'"
  shows "fresh st'"
  using s
proof (cases rule: check_and_handle_split_cases)
  case (idle b n)
  with f show ?thesis by simp
next
  case (root b n l r m ln)
  from f root(2) show ?thesis by (auto simp: without_superblock_def fresh_def root(9))
next
  case (inner b n l r m p pn ln)
  from f inner(2,6) show ?thesis
    by (auto simp: without_superblock_def fresh_def inner(9) split: if_splits)
qed

lemma check_and_handle_underfull_fresh:
  assumes f: "fresh st" and s: "check_and_handle_underfull E key st = Inr st'"
  shows "fresh st'"
  using s
proof (cases rule: check_and_handle_underfull_cases)
  case (idle b n)
  with f show ?thesis by simp
next
  case (merge_left b n p pn cmp sib sn l r k)
  from f merge_left(2,4,8) show ?thesis by (auto simp: without_superblock_def fresh_def merge_left(13))
next
  case (collapse_left b n p pn cmp sib sn l r k)
  from f collapse_left(2,4,8) show ?thesis by (auto simp: without_superblock_def fresh_def collapse_left(14))
next
  case (merge_right b n p pn cmp sib sn l r k)
  from f merge_right(2,4,8) show ?thesis by (auto simp: without_superblock_def fresh_def merge_right(13))
next
  case (collapse_right b n p pn cmp sib sn l r k)
  from f collapse_right(2,4,8) show ?thesis by (auto simp: without_superblock_def fresh_def collapse_right(14))
next
  case (level b n p pn cmp sib sn lv n' s' k1 k2)
  from f level(2,4,8) show ?thesis by (auto simp: without_superblock_def fresh_def level(11))
qed

lemma is_full_check_Some:
  "is_full_check E n key (Some v) = Inr f \<Longrightarrow> is_leaf E n \<Longrightarrow> f = leaf_is_full E n key v"
  by (auto simp: without_superblock_def is_full_check_def rassert_def ebind_eq_Inr split: if_splits)

lemma check_and_handle_split_idle:
  "buf st = Some b \<Longrightarrow> blocks st b = Some n \<Longrightarrow> is_full_check E n key nv = Inr False \<Longrightarrow>
     check_and_handle_split E key nv st = Inr st"
  by (simp add: without_superblock_def check_and_handle_split_def get_data_def)

text \<open>After a split the cursor is on one of the two halves.\<close>

lemma check_and_handle_split_halves:
  assumes f: "fresh st"
    and d: "\<forall>p. last_buf st = Some p \<longrightarrow> buf st \<noteq> Some p \<and> blocks st p \<noteq> None"
    and b: "buf st = Some b" "blocks st b = Some n"
    and s: "check_and_handle_split E key nv st = Inr st'"
  shows "st' = st \<and> is_full_check E n key nv = Inr False
       \<or> is_full_check E n key nv = Inr True
         \<and> (\<exists>c h p. (h = fst (node_split E (block_size E) n)
                      \<or> h = fst (snd (node_split E (block_size E) n)))
              \<and> buf st' = Some c \<and> blocks st' c = Some h
              \<and> last_buf st' = Some p \<and> p \<noteq> c \<and> blocks st' p \<noteq> None)"
  using s
proof (cases rule: check_and_handle_split_cases)
  case (idle b' n')
  with b show ?thesis by simp
next
  case (root b' n' l r m ln)
  with b have e: "b' = b" "n' = n" by simp_all
  note ne = fresh_existing [OF f b(2)]
  let ?c = "if key \<le> m then b else Blk (next_free st)"
  let ?h = "if key \<le> m then l else r"
  have 1: "buf st' = Some ?c" "last_buf st' = Some (Blk (Suc (next_free st)))"
    "blocks st' (Blk (Suc (next_free st))) \<noteq> None" "Blk (Suc (next_free st)) \<noteq> ?c"
    using ne by (auto simp: without_superblock_def root(9) e)
  have 2: "blocks st' ?c = Some ?h"
    using ne by (auto simp: without_superblock_def root(9) e)
  have 3: "?h = fst (node_split E (block_size E) n) \<or> ?h = fst (snd (node_split E (block_size E) n))"
    using root(4) e by simp
  from root(3) e have 4: "is_full_check E n key nv = Inr True" by simp
  from 1 2 3 4 show ?thesis by blast
next
  case (inner b' n' l r m p pn ln)
  with b have e: "b' = b" "n' = n" by simp_all
  note ne = fresh_existing [OF f b(2)]
  from d inner(5) b(1) obtain x where p: "p \<noteq> b" "blocks st p = Some x" by auto
  note np = fresh_existing [OF f p(2)]
  let ?c = "if key \<le> m then b else Blk (next_free st)"
  let ?h = "if key \<le> m then l else r"
  have 1: "buf st' = Some ?c" "last_buf st' = Some p" "blocks st' p \<noteq> None" "p \<noteq> ?c"
    using ne np p by (auto simp: without_superblock_def inner(9) e inner(5))
  have 2: "blocks st' ?c = Some ?h"
    using ne np p by (auto simp: without_superblock_def inner(9) e)
  have 3: "?h = fst (node_split E (block_size E) n) \<or> ?h = fst (snd (node_split E (block_size E) n))"
    using inner(4) e by simp
  from inner(3) e have 4: "is_full_check E n key nv = Inr True" by simp
  from 1 2 3 4 show ?thesis by blast
qed

lemma check_and_handle_underfull_not_29_gen:
  assumes a: "sb_buf st \<or> last_buf st = None
       \<or> (\<exists>p pn. last_buf st = Some p \<and> blocks st p = Some pn \<and> \<not> internal_is_singleton E pn)
       \<or> (\<exists>b n. buf st = Some b \<and> blocks st b = Some n \<and> \<not> node_is_underfull E (block_size E) n)"
  shows "\<not> without_superblock (check_and_handle_underfull E key st)"
proof (cases "get_data 92 (buf st) st")
  case (Inl e)
  then show ?thesis
    by (auto simp: without_superblock_def check_and_handle_underfull_def get_data_def split: option.splits)
next
  case (Inr x)
  obtain b n where x: "x = (b, n)" by (cases x)
  from Inr x have bn: "buf st = Some b" "blocks st b = Some n"
    by (auto simp: without_superblock_def get_data_def split: option.splits)
  show ?thesis
  proof (cases "last_buf st \<noteq> None \<and> node_is_underfull E (block_size E) n")
    case False
    with Inr x show ?thesis by (auto simp: without_superblock_def check_and_handle_underfull_def)
  next
    case True
    then obtain p where lp: "last_buf st = Some p" and u: "node_is_underfull E (block_size E) n"
      by auto
    show ?thesis
    proof (cases "blocks st p")
      case None
      with Inr x lp u show ?thesis by (simp add: without_superblock_def check_and_handle_underfull_def get_data_def)
    next
      case (Some pn)
      from a lp u bn Some have k: "sb_buf st \<or> \<not> internal_is_singleton E pn" by auto
      obtain cmp sib where s: "internal_sibling E pn key = (cmp, sib)"
        by (cases "internal_sibling E pn key")
      show ?thesis
      proof (cases "acquire st sib")
        case (Inl e)
        then have "e \<noteq> Rassert 29 \<and> e \<noteq> Null_deref 30"
          by (auto simp: without_superblock_def acquire_def split: if_splits option.splits)
        with Inl Inr x lp u Some s show ?thesis
          by (simp add: without_superblock_def check_and_handle_underfull_def get_data_def)
      next
        case a: (Inr sn)
        obtain l r k where m1: "node_merge E (block_size E) n sn pn = (l, r, k)"
          by (cases "node_merge E (block_size E) n sn pn")
        obtain l' r' k' where m2: "node_merge E (block_size E) sn n pn = (l', r', k')"
          by (cases "node_merge E (block_size E) sn n pn")
        obtain lv n' s' k1 k2 where lv: "node_level E (block_size E) n sn pn = (lv, n', s', k1, k2)"
          by (cases "node_level E (block_size E) n sn pn")
        show ?thesis
        proof (cases "sb_buf st")
          case True
          with a Inr x lp u Some s m1 m2 lv show ?thesis
            by (simp add: without_superblock_def check_and_handle_underfull_def get_data_def Let_def insert_root_def
                          rassert_def)
        next
          case False
          with k have "\<not> internal_is_singleton E pn" by simp
          with a Inr x lp u Some s m1 m2 lv show ?thesis
            by (simp add: without_superblock_def check_and_handle_underfull_def get_data_def Let_def rassert_def)
        qed
      qed
    qed
  qed
qed

lemma root_safe_at_internal:
  assumes c: "root_contract E" and r: "root_safe E s"
    and bn: "buf s = Some b" "blocks s b = Some node" and i: "is_internal E node"
  shows "last_buf s = None \<longrightarrow> sb_buf s"
proof
  assume l: "last_buf s = None"
  show "sb_buf s"
  proof (rule ccontr)
    assume "\<not> sb_buf s"
    with r l obtain b' t where "buf s = Some b'"
      "blocks s b' = Some (leaf_init E (block_size E) t)"
      unfolding root_safe_def by blast
    with bn have "node = leaf_init E (block_size E) t" by simp
    with i root_contract_init [OF c, of t] show False by simp
  qed
qed

lemma root_safe_parent:
  "root_safe E s \<Longrightarrow> \<forall>p. last_buf s = Some p \<longrightarrow> buf s \<noteq> Some p \<and> blocks s p \<noteq> None"
  unfolding root_safe_def by fast

lemma root_safe_fresh: "root_safe E s \<Longrightarrow> fresh s"
  unfolding root_safe_def by fast

lemma root_safe_quiet_underfull:
  assumes r: "root_safe E s"
  shows "sb_buf s \<or> last_buf s = None
       \<or> (\<exists>p pn. last_buf s = Some p \<and> blocks s p = Some pn \<and> \<not> internal_is_singleton E pn)
       \<or> (\<exists>b n. buf s = Some b \<and> blocks s b = Some n
                  \<and> \<not> node_is_underfull E (block_size E) n)"
proof (cases "last_buf s")
  case None
  then show ?thesis by simp
next
  case (Some p)
  with r obtain pn where pn: "blocks s p = Some pn" "sb_buf s \<or> \<not> internal_is_singleton E pn"
    unfolding root_safe_def by blast
  show ?thesis
  proof (cases "sb_buf s")
    case True
    then show ?thesis by (rule disjI1)
  next
    case False
    with pn Some have "last_buf s = Some p \<and> blocks s p = Some pn \<and> \<not> internal_is_singleton E pn"
      by simp
    then have "\<exists>p pn. last_buf s = Some p \<and> blocks s p = Some pn \<and> \<not> internal_is_singleton E pn"
      by (intro exI)
    then show ?thesis by (intro disjI2 disjI1)
  qed
qed

lemma check_and_handle_split_mid:
  fixes E :: "('n, 'v, 's) env"
  assumes c: "root_contract E" and r: "root_safe E s"
    and bn: "buf s = Some b" "blocks s b = Some node" and i: "is_internal E node"
    and sp: "check_and_handle_split E key None s = Inr st1"
  shows "(last_buf st1 = None \<longrightarrow> sb_buf st1 \<and> st1 = s)
       \<and> (\<forall>p. last_buf st1 = Some p \<longrightarrow> buf st1 \<noteq> Some p)
       \<and> (sb_buf st1 \<or> last_buf st1 = None
           \<or> (\<exists>p pn. last_buf st1 = Some p \<and> blocks st1 p = Some pn
                       \<and> \<not> internal_is_singleton E pn)
           \<or> (\<exists>b n. buf st1 = Some b \<and> blocks st1 b = Some n
                      \<and> \<not> node_is_underfull E (block_size E) n))"
proof -
  note h = check_and_handle_split_halves [OF root_safe_fresh [OF r] root_safe_parent [OF r] bn sp]
  note a = root_safe_at_internal [OF c r bn i]
  show ?thesis
  proof (cases "st1 = s")
    case True
    have 1: "last_buf s = None \<longrightarrow> sb_buf s \<and> s = s" using a by simp
    have 2: "\<forall>p. last_buf s = Some p \<longrightarrow> buf s \<noteq> Some p"
      using root_safe_parent [OF r] by fast
    note 3 = root_safe_quiet_underfull [OF r]
    show ?thesis unfolding True by (intro conjI 1 2 3)
  next
    case False
    with h obtain cc hh p where f: "is_full_check E node key None = Inr True"
      and hh: "hh = fst (node_split E (block_size E) node)
               \<or> hh = fst (snd (node_split E (block_size E) node))"
      and st1: "buf st1 = Some cc" "blocks st1 cc = Some hh" "last_buf st1 = Some p" "p \<noteq> cc"
      by blast
    from is_full_check_None [OF f] have full: "internal_is_full E node" by simp
    obtain l r' m where spl: "node_split E (block_size E) node = (l, r', m)"
      by (cases "node_split E (block_size E) node")
    from root_contract_split [OF c full spl] hh spl
    have nu: "\<not> node_is_underfull E (block_size E) hh" by auto
    have 1: "last_buf st1 = None \<longrightarrow> sb_buf st1 \<and> st1 = s" using st1(3) by simp
    have 2: "\<forall>p. last_buf st1 = Some p \<longrightarrow> buf st1 \<noteq> Some p" using st1 by simp
    have "\<exists>b n. buf st1 = Some b \<and> blocks st1 b = Some n
                      \<and> \<not> node_is_underfull E (block_size E) n"
      using st1(1,2) nu by fast
    then have 3: "sb_buf st1 \<or> last_buf st1 = None
           \<or> (\<exists>p pn. last_buf st1 = Some p \<and> blocks st1 p = Some pn
                       \<and> \<not> internal_is_singleton E pn)
           \<or> (\<exists>b n. buf st1 = Some b \<and> blocks st1 b = Some n
                      \<and> \<not> node_is_underfull E (block_size E) n)"
      by (intro disjI2)
    show ?thesis by (intro conjI 1 2 3)
  qed
qed

lemma check_and_handle_underfull_parent:
  fixes E :: "('n, 'v, 's) env"
  assumes c: "root_contract E" and lp: "last_buf st = Some p" and bp: "buf st \<noteq> Some p"
    and u: "check_and_handle_underfull E key st = Inr st'"
  shows "\<exists>b n. buf st' = Some b \<and> blocks st' b = Some n \<and> \<not> internal_is_singleton E n"
  using u
proof (cases rule: check_and_handle_underfull_cases)
  case (idle b n)
  with lp have "\<not> node_is_underfull E (block_size E) n" by simp
  from root_contract_full [OF c this] idle show ?thesis by simp
next
  case (merge_left b n p' pn cmp sib sn l r k)
  from merge_left(7) held_last_buf [OF merge_left(3)] have ps: "p' \<noteq> sib" by auto
  from root_contract_merge [OF c merge_left(5,9) disjI1 [OF merge_left(11)]]
  have "\<not> internal_is_singleton E r" .
  with ps show ?thesis by (auto simp: without_superblock_def merge_left(13))
next
  case (collapse_left b n p' pn cmp sib sn l r k)
  from root_contract_merge [OF c collapse_left(5,9) disjI1 [OF collapse_left(11)]]
  have "\<not> internal_is_singleton E r" .
  then show ?thesis by (auto simp: without_superblock_def collapse_left(14))
next
  case (merge_right b n p' pn cmp sib sn l r k)
  from lp bp merge_right(1,3) have pb: "p' \<noteq> b" by auto
  from root_contract_merge [OF c merge_right(5,9) disjI2 [OF merge_right(11)]]
  have "\<not> internal_is_singleton E r" .
  with pb show ?thesis by (auto simp: without_superblock_def merge_right(13) merge_right(1))
next
  case (collapse_right b n p' pn cmp sib sn l r k)
  from root_contract_merge [OF c collapse_right(5,9) disjI2 [OF collapse_right(11)]]
  have "\<not> internal_is_singleton E r" .
  then show ?thesis by (auto simp: without_superblock_def collapse_right(14) collapse_right(1))
next
  case (level b n p' pn cmp sib sn lv n' s' k1 k2)
  from lp bp level(1,3) have pb: "p' \<noteq> b" by auto
  from level(7) held_buf [OF level(1)] have bs: "sib \<noteq> b" by auto
  from root_contract_level [OF c level(5,9,10)]
  have "\<not> internal_is_singleton E n'" .
  with pb bs show ?thesis by (auto simp: without_superblock_def level(11) level(1))
qed

lemma descend_step_root_safe:
  fixes E :: "('n, 'v, 's) env"
  assumes c: "root_contract E" and r: "root_safe E s"
    and bn: "buf s = Some b" "blocks s b = Some node" and i: "is_internal E node"
    and d: "descend_step E key s = Inr s'"
  shows "root_safe E s'"
  using d
proof (cases rule: descend_step_Inr)
  case (1 st1 st2 b2 node2)
  note m = check_and_handle_split_mid [OF c r bn i 1(1)]
  note f1 = check_and_handle_split_fresh [OF root_safe_fresh [OF r] 1(1)]
  note f2 = check_and_handle_underfull_fresh [OF f1 1(2)]
  from f2 have f: "fresh s'" by (simp add: without_superblock_def fresh_def 1(7))
  from 1(5) 1(3) have ne: "internal_lookup E node2 key \<noteq> b2"
    by (auto simp: without_superblock_def held_def)
  have k: "sb_buf s' \<or> \<not> internal_is_singleton E node2"
  proof (cases "last_buf st1")
    case None
    with m have "sb_buf st1" by blast
    moreover from check_and_handle_underfull_locks [OF 1(2)] None have "st2 = st1" by blast
    ultimately show ?thesis using None by (simp add: without_superblock_def 1(7))
  next
    case (Some p)
    with m have "buf st1 \<noteq> Some p" by blast
    from check_and_handle_underfull_parent [OF c Some this 1(2)] 1(3,4)
    show ?thesis by auto
  qed
  from f ne k 1(4) show ?thesis
    by (simp add: without_superblock_def root_safe_def 1(7))
qed

lemma descend_step_not_29_safe:
  fixes E :: "('n, 'v, 's) env"
  assumes c: "root_contract E" and r: "root_safe E s"
    and bn: "buf s = Some b" "blocks s b = Some node" and i: "is_internal E node"
  shows "\<not> without_superblock (descend_step E key s)"
proof (cases "check_and_handle_split E key None s")
  case (Inl e)
  with check_and_handle_split_not_29 [OF root_safe_at_internal [OF c r bn i], of E key None]
  show ?thesis by (simp add: without_superblock_def descend_step_def)
next
  case s1: (Inr st1)
  note m = check_and_handle_split_mid [OF c r bn i s1]
  then have u: "\<not> without_superblock (check_and_handle_underfull E key st1)"
    by (intro check_and_handle_underfull_not_29_gen) blast
  show ?thesis
  proof (cases "check_and_handle_underfull E key st1")
    case (Inl e)
    with s1 u show ?thesis by (simp add: without_superblock_def descend_step_def)
  next
    case s2: (Inr st2)
    with s1 show ?thesis
      by (auto simp: without_superblock_def descend_step_def Let_def get_data_def acquire_def rassert_def ebind_eq_Inl
               split: option.splits if_splits)
  qed
qed

lemma root_safe_cases:
  assumes "root_safe E s"
  obtains (sb) "sb_buf s"
    | (root) "last_buf s = None"
    | (parent) p pn where "last_buf s = Some p" "buf s \<noteq> Some p" "blocks s p = Some pn"
        "\<not> internal_is_singleton E pn"
proof (cases "last_buf s")
  case None
  then show ?thesis by (rule root)
next
  case (Some p)
  with assms obtain pn where pn: "buf s \<noteq> Some p" "blocks s p = Some pn"
    "sb_buf s \<or> \<not> internal_is_singleton E pn"
    unfolding root_safe_def by blast
  show ?thesis
  proof (cases "sb_buf s")
    case True
    then show ?thesis by (rule sb)
  next
    case False
    with pn have "\<not> internal_is_singleton E pn" by simp
    from Some pn(1,2) this show ?thesis by (rule parent)
  qed
qed

lemma underfull_after_write:
  fixes E :: "('n, 'v, 's) env"
  assumes r: "root_safe E st" and bc: "buf st = Some c"
    and e: "sb_buf st' = sb_buf st" "last_buf st' = last_buf st" "blocks st' = (blocks st)(c \<mapsto> x)"
  shows "\<not> without_superblock (check_and_handle_underfull E key st')"
  using r
proof (cases rule: root_safe_cases)
  case sb
  with e have "sb_buf st'" by simp
  then show ?thesis
    by (intro check_and_handle_underfull_not_29_gen disjI1)
next
  case root
  with e have "last_buf st' = None" by simp
  then show ?thesis
    by (rule_tac check_and_handle_underfull_not_29_gen) (rule disjI2, rule disjI1)
next
  case (parent p pn)
  with bc e have "last_buf st' = Some p \<and> blocks st' p = Some pn \<and> \<not> internal_is_singleton E pn"
    by auto
  then have "\<exists>p pn. last_buf st' = Some p \<and> blocks st' p = Some pn
                      \<and> \<not> internal_is_singleton E pn"
    by (intro exI)
  then show ?thesis
    by (rule_tac check_and_handle_underfull_not_29_gen) (rule disjI2, rule disjI2, rule disjI1)
qed

lemma underfull_at_filled:
  fixes E :: "('n, 'v, 's) env"
  assumes "buf st' = Some c" "blocks st' c = Some x" "\<not> node_is_underfull E (block_size E) x"
  shows "\<not> without_superblock (check_and_handle_underfull E key st')"
proof -
  from assms have "\<exists>b n. buf st' = Some b \<and> blocks st' b = Some n
                          \<and> \<not> node_is_underfull E (block_size E) n"
    by (intro exI conjI)
  then show ?thesis
    by (rule_tac check_and_handle_underfull_not_29_gen) (rule disjI2, rule disjI2, rule disjI2)
qed

lemma check_and_handle_split_not_29_safe:
  fixes E :: "('n, 'v, 's) env"
  assumes c: "root_contract E" and r: "root_safe E st"
  shows "\<not> without_superblock (check_and_handle_split E key nv st)"
proof (cases "last_buf st = None \<longrightarrow> sb_buf st")
  case True
  then show ?thesis by (rule check_and_handle_split_not_29)
next
  case False
  then have l: "last_buf st = None" "\<not> sb_buf st" by simp_all
  with r obtain b t where b: "buf st = Some b" "blocks st b = Some (leaf_init E (block_size E) t)"
    unfolding root_safe_def by blast
  from root_contract_init [OF c, of t] root_contract_kind [OF c, of "leaf_init E (block_size E) t"]
  have "is_leaf E (leaf_init E (block_size E) t)"
    "\<And>k v. \<not> leaf_is_full E (leaf_init E (block_size E) t) k v" by simp_all
  with b show ?thesis
    by (cases nv)
       (simp_all add: without_superblock_def check_and_handle_split_def get_data_def is_full_check_def rassert_def)
qed

lemma update_leaf_not_29_safe:
  fixes E :: "('n, 'v, 's) env"
  assumes c: "root_contract E" and r: "root_safe E st"
    and bn: "buf st = Some b" "blocks st b = Some node" and nl: "\<not> is_internal E node"
  shows "\<not> without_superblock (update_leaf E key upd kf ex nv cs st)"
proof (cases upd)
  case False
  then show ?thesis by (simp add: without_superblock_def update_leaf_def)
next
  case True
  from root_contract_kind [OF c, of node] nl have lf: "is_leaf E node" by simp
  show ?thesis
  proof (cases nv)
    case None
    have 1: "\<not> without_superblock (check_and_handle_underfull E key st)"
      using root_safe_quiet_underfull [OF r] by (rule check_and_handle_underfull_not_29_gen)
    have 2: "\<not> without_superblock (check_and_handle_underfull E key (st\<lparr>blocks := (blocks st)(b \<mapsto> y)\<rparr>))" for y
      by (rule underfull_after_write [OF r bn(1)]) simp_all
    from True None bn 1 2 show ?thesis
      by (simp add: without_superblock_def update_leaf_def get_data_def)
  next
    case (Some v)
    show ?thesis
    proof (cases "check_and_handle_split E key (Some v) st")
      case (Inl e)
      with check_and_handle_split_not_29_safe [OF c r, of key "Some v"] True Some show ?thesis
        by (simp add: without_superblock_def update_leaf_def)
    next
      case (Inr st1)
      note h = check_and_handle_split_halves [OF root_safe_fresh [OF r] root_safe_parent [OF r] bn Inr]
      have u: "\<not> without_superblock (check_and_handle_underfull E key st')"
        if w: "buf st1 = Some c'" "blocks st1 c' = Some leaf"
          "leaf_insert E (block_size E) leaf key w t = Some x"
          and e: "buf st' = buf st1" "sb_buf st' = sb_buf st1" "last_buf st' = last_buf st1"
            "blocks st' = (blocks st1)(c' \<mapsto> x)" for c' leaf w t x st'
      proof (cases "st1 = st")
        case True
        with w(1) e show ?thesis
          by (intro underfull_after_write [OF r, where c = c' and x = x]) simp_all
      next
        case False
        with h obtain cc hh p where f: "is_full_check E node key (Some v) = Inr True"
          and hh: "hh = fst (node_split E (block_size E) node)
                   \<or> hh = fst (snd (node_split E (block_size E) node))"
          and st1: "buf st1 = Some cc" "blocks st1 cc = Some hh"
          by blast
        from is_full_check_Some [OF f lf] have full: "leaf_is_full E node key v" by simp
        obtain l r' m where spl: "node_split E (block_size E) node = (l, r', m)"
          by (cases "node_split E (block_size E) node")
        from st1 w have "leaf = hh" by simp
        with hh spl w(3) have "leaf_insert E (block_size E) l key w t = Some x
           \<or> leaf_insert E (block_size E) r' key w t = Some x" by auto
        from root_contract_leaf [OF c full spl this]
        have "\<not> node_is_underfull E (block_size E) x" .
        with w(1) e show ?thesis
          by (intro underfull_at_filled [where c = c' and x = x]) simp_all
      qed
      have u1: "\<not> without_superblock (check_and_handle_underfull E key (st1\<lparr>slice := sl, blocks := (blocks st1)(c' \<mapsto> x)\<rparr>))"
        if "buf st1 = Some c'" "blocks st1 c' = Some leaf"
          "leaf_insert E (block_size E) leaf key w t = Some x" for c' leaf w t x sl
        by (rule u [OF that]) simp_all
      have u2: "\<not> without_superblock (check_and_handle_underfull E key (st1\<lparr>blocks := (blocks st1)(c' \<mapsto> x)\<rparr>))"
        if "buf st1 = Some c'" "blocks st1 c' = Some leaf"
          "leaf_insert E (block_size E) leaf key w t = Some x" for c' leaf w t x
        by (rule u [OF that]) simp_all
      from Inr True Some u1 u2 show ?thesis
        by (auto simp: without_superblock_def update_leaf_def get_data_def ebind_eq_Inl Let_def
                 split: option.splits prod.splits)
    qed
  qed
qed

lemma apply_at_leaf_not_29_safe:
  fixes E :: "('n, 'v, 's) env"
  assumes c: "root_contract E" and r: "root_safe E st"
    and bn: "buf st = Some b" "blocks st b = Some node" and nl: "\<not> is_internal E node"
  shows "\<not> without_superblock (apply_at_leaf E key st)"
proof
  assume a: "without_superblock (apply_at_leaf E key st)"
  have 1: "\<not> without_superblock (acquire_old_large E old)" for old
    by (auto simp: without_superblock_def acquire_old_large_def rassert_def Let_def split: option.splits)
  have 2: "\<not> without_superblock (check_operate_result E res)" for res
    by (auto simp: without_superblock_def check_operate_result_def rassert_def split: option.splits)
  from a 1 2 update_leaf_not_29_safe [OF c r bn nl, of key] release_all_not_29 [of E] show False
    by (auto simp: without_superblock_def apply_at_leaf_def get_data_def Let_def ebind_eq_Inl
             split: option.splits prod.splits if_splits)
qed

lemma descend_safe:
  fixes E :: "('n, 'v, 's) env"
  assumes c: "root_contract E"
  shows "root_safe E st \<Longrightarrow>
     \<not> without_superblock (descend E key fuel st)
     \<and> (\<forall>st'. descend E key fuel st = Inr st' \<longrightarrow>
           root_safe E st'
           \<and> (\<exists>b node. buf st' = Some b \<and> blocks st' b = Some node \<and> \<not> is_internal E node))"
proof (induction fuel arbitrary: st)
  case 0
  then show ?case
    by (auto simp: without_superblock_def get_data_def ebind_eq_Inl ebind_eq_Inr split: option.splits if_splits)
next
  case (Suc fuel)
  show ?case
  proof (cases "get_data 190 (buf st) st")
    case (Inl e)
    then show ?thesis by (auto simp: without_superblock_def get_data_def split: option.splits)
  next
    case (Inr x)
    obtain b node where x: "x = (b, node)" by (cases x)
    from Inr x have bn: "buf st = Some b" "blocks st b = Some node"
      by (auto simp: without_superblock_def get_data_def split: option.splits)
    show ?thesis
    proof (cases "is_internal E node")
      case False
      with Inr x bn Suc.prems show ?thesis by simp
    next
      case True
      show ?thesis
      proof (cases "descend_step E key st")
        case (Inl e)
        with descend_step_not_29_safe [OF c Suc.prems bn True, of key] Inr x True show ?thesis
          by simp
      next
        case s: (Inr s)
        from Suc.IH [OF descend_step_root_safe [OF c Suc.prems bn True s]] Inr x True s
        show ?thesis by simp
      qed
    qed
  qed
qed

lemma get_root_safe:
  assumes "fresh st0"
    and "get_root E (st0\<lparr>sb_buf := True, last_buf := None, buf := None\<rparr>) = Inr st1"
  shows "root_safe E st1"
  using assms
  by (auto simp: without_superblock_def get_root_def insert_root_def rassert_def Let_def ebind_eq_Inr acquire_def
                 root_safe_def fresh_def split: if_splits option.splits)

lemma length_ins_entry: "length es \<le> length (ins_entry k v es)"
  by (induction es) auto

lemma t_split_halves_full:
  assumes "t_internal_is_full n" and "t_split bs n = (l, r, m)"
  shows "\<not> t_is_underfull bs l \<and> \<not> t_is_underfull bs r"
proof (cases n)
  case (TLeaf es)
  with assms(1) show ?thesis by (simp add: without_superblock_def t_internal_is_full_def)
next
  case (TInternal ps c)
  with assms(1) have len: "length ps = 5" by (simp add: without_superblock_def t_internal_is_full_def)
  then have d: "length (drop 2 ps) = 3" by simp
  then obtain x rest where dr: "drop 2 ps = x # rest" by (cases "drop 2 ps") auto
  with d have lr: "length rest = 2" by simp
  obtain k c' where x: "x = (k, c')" by (cases x)
  from assms(2) TInternal len dr x have "l = TInternal (take 2 ps) c'" "r = TInternal rest c"
    by simp_all
  with len lr show ?thesis by (simp add: without_superblock_def t_is_underfull_def)
qed

lemma t_split_leaf_insert:
  assumes "t_leaf_is_full n k v" and "t_split bs n = (l, r, m)"
    and "t_leaf_insert bs l k w t = Some x \<or> t_leaf_insert bs r k w t = Some x"
  shows "\<not> t_is_underfull bs x"
proof (cases n)
  case (TInternal ps c)
  with assms(1) show ?thesis by (simp add: without_superblock_def t_leaf_is_full_def)
next
  case (TLeaf es)
  with assms(1) have len: "4 \<le> length es" by (simp add: without_superblock_def t_leaf_is_full_def)
  from assms(2) TLeaf have lr: "l = TLeaf (take (length es div 2) es)"
    "r = TLeaf (drop (length es div 2) es)" by (simp_all add: without_superblock_def Let_def)
  from len have h: "2 \<le> length (take (length es div 2) es)"
    "2 \<le> length (drop (length es div 2) es)" by simp_all
  from assms(3) lr have "x = TLeaf (ins_entry k w (take (length es div 2) es))
       \<or> x = TLeaf (ins_entry k w (drop (length es div 2) es))"
    by (auto simp: without_superblock_def t_leaf_insert_def split: if_splits)
  with h length_ins_entry [of "take (length es div 2) es" k w]
    length_ins_entry [of "drop (length es div 2) es" k w]
  show ?thesis by (auto simp: without_superblock_def t_is_underfull_def)
qed

lemma eager_merge_survivor:
  assumes "t_is_underfull bs n" and "eager_mergable bs n s p"
    and "t_merge bs n s p = (l, r, k) \<or> t_merge bs s n p = (l, r, k)"
  shows "length (pairs_of r) \<noteq> 1"
proof (cases n)
  case n: (TLeaf es)
  with assms(2) obtain fs where "s = TLeaf fs"
    by (cases s) (simp_all add: without_superblock_def eager_mergable_def)
  with n assms(3) show ?thesis by auto
next
  case n: (TInternal ps c)
  with assms(2) have "length ps = 1" by (simp add: without_superblock_def eager_mergable_def)
  with n assms(3) show ?thesis by (cases s) auto
qed

lemma eager_level_result:
  assumes "t_is_underfull bs n" and "\<not> eager_mergable bs n s p"
    and "t_level bs n s p = (lv, n', s', k1, k2)"
  shows "length (pairs_of n') \<noteq> 1"
  using assms by (cases n) (auto simp: without_superblock_def eager_mergable_def t_level_def)

lemma eager_root_contract: "root_contract (eager_env dbg oper)"
  unfolding root_contract_def
proof (intro conjI allI impI)
  fix n
  show "is_leaf (eager_env dbg oper) n \<longleftrightarrow> \<not> is_internal (eager_env dbg oper) n"
    by (simp add: without_superblock_def eager_env_def toy_env_def)
next
  fix t k v
  show "\<not> is_internal (eager_env dbg oper)
            (leaf_init (eager_env dbg oper) (block_size (eager_env dbg oper)) t)"
    "\<not> leaf_is_full (eager_env dbg oper)
            (leaf_init (eager_env dbg oper) (block_size (eager_env dbg oper)) t) k v"
    by (simp_all add: without_superblock_def eager_env_def toy_env_def t_leaf_is_full_def)
next
  fix n l r m
  assume "internal_is_full (eager_env dbg oper) n"
    "node_split (eager_env dbg oper) (block_size (eager_env dbg oper)) n = (l, r, m)"
  then have "\<not> t_is_underfull 4096 l \<and> \<not> t_is_underfull 4096 r"
    using t_split_halves_full [of n 4096 l r m] by (simp add: without_superblock_def eager_env_def toy_env_def)
  then show "\<not> node_is_underfull (eager_env dbg oper) (block_size (eager_env dbg oper)) l"
    "\<not> node_is_underfull (eager_env dbg oper) (block_size (eager_env dbg oper)) r"
    by (simp_all add: without_superblock_def eager_env_def toy_env_def)
next
  fix n k v l r m w t x
  assume "leaf_is_full (eager_env dbg oper) n k v"
    "node_split (eager_env dbg oper) (block_size (eager_env dbg oper)) n = (l, r, m)"
    "leaf_insert (eager_env dbg oper) (block_size (eager_env dbg oper)) l k w t = Some x
     \<or> leaf_insert (eager_env dbg oper) (block_size (eager_env dbg oper)) r k w t = Some x"
  then show "\<not> node_is_underfull (eager_env dbg oper) (block_size (eager_env dbg oper)) x"
    using t_split_leaf_insert [of n k v 4096 l r m w t x] by (simp add: without_superblock_def eager_env_def toy_env_def)
next
  fix n
  assume "\<not> node_is_underfull (eager_env dbg oper) (block_size (eager_env dbg oper)) n"
  then show "\<not> internal_is_singleton (eager_env dbg oper) n"
    by (cases n) (simp_all add: without_superblock_def eager_env_def toy_env_def t_is_underfull_def)
next
  fix n s p l r k
  assume "node_is_underfull (eager_env dbg oper) (block_size (eager_env dbg oper)) n"
    "node_is_mergable (eager_env dbg oper) (block_size (eager_env dbg oper)) n s p"
    "node_merge (eager_env dbg oper) (block_size (eager_env dbg oper)) n s p = (l, r, k)
     \<or> node_merge (eager_env dbg oper) (block_size (eager_env dbg oper)) s n p = (l, r, k)"
  then show "\<not> internal_is_singleton (eager_env dbg oper) r"
    using eager_merge_survivor [of 4096 n s p l r k] by (simp add: without_superblock_def eager_env_def toy_env_def)
next
  fix n s p lv n' s' k1 k2
  assume "node_is_underfull (eager_env dbg oper) (block_size (eager_env dbg oper)) n"
    "\<not> node_is_mergable (eager_env dbg oper) (block_size (eager_env dbg oper)) n s p"
    "node_level (eager_env dbg oper) (block_size (eager_env dbg oper)) n s p = (lv, n', s', k1, k2)"
  then show "\<not> internal_is_singleton (eager_env dbg oper) n'"
    using eager_level_result [of 4096 n s p lv n' s' k1 k2] by (simp add: without_superblock_def eager_env_def toy_env_def)
qed

lemma fresh_family: "fresh (family_store [([10], Blk 2)] (Blk 3) twins)"
  by (auto simp: without_superblock_def fresh_def family_store_def twins_def)

subsection \<open>The superblock from one iteration to the next\<close>

lemma loop_head_at_loop_head: "loop_head_at E key st n s \<Longrightarrow> loop_head E key st s"
  by (induction rule: loop_head_at.induct) (auto intro: loop_head.intros)

lemma loop_head_at_0: "loop_head_at E key st 0 s \<Longrightarrow> s = st"
  by (erule loop_head_at.cases) simp_all

lemma loop_head_at_Suc: "loop_head_at E key st (Suc n) s \<Longrightarrow> last_buf s \<noteq> None"
proof (erule loop_head_at.cases)
  assume "Suc n = 0" then show ?thesis by simp
next
  fix m t b node s'
  assume "s = s'" and "descend_step E key t = Inr s'"
  with descend_step_locks [of E key t s'] show ?thesis by blast
qed

lemma get_root_locks:
  assumes "get_root E (st0\<lparr>sb_buf := True, last_buf := None, buf := None\<rparr>) = Inr st"
  shows "(sb_buf st \<longleftrightarrow> root_block st0 \<noteq> NULL_BLOCK_ID) \<and> last_buf st = None
       \<and> (root_block st0 \<noteq> NULL_BLOCK_ID \<longrightarrow>
            st = st0\<lparr>sb_buf := True, last_buf := None, buf := Some (root_block st0)\<rparr>)"
  using assms
  by (auto simp: get_root_def insert_root_def rassert_def Let_def ebind_eq_Inr acquire_def
           split: if_splits option.splits)

lemma descend_step_superblock:
  fixes E :: "('n, 'v, 's) env"
  assumes "descend_step E key s = Inr s'"
  shows "sb_buf s' \<longleftrightarrow> sb_buf s \<and> last_buf s = None
           \<and> (\<exists>b node. buf s = Some b \<and> blocks s b = Some node \<and> \<not> internal_is_full E node)"
  using assms
proof (cases rule: descend_step_Inr)
  case (1 st1 st2 b2 node2)
  note u = check_and_handle_underfull_locks [OF 1(2)]
  have e: "sb_buf s' \<longleftrightarrow> sb_buf st1 \<and> last_buf st1 = None"
  proof (cases "last_buf st1")
    case None
    with u have "st2 = st1" by blast
    with None show ?thesis by (simp add: 1(7))
  next
    case (Some p)
    with u have "last_buf st2 \<noteq> None" by simp
    with Some show ?thesis by (simp add: 1(7))
  qed
  from 1(1) show ?thesis
  proof (cases rule: check_and_handle_split_cases)
    case (idle b n)
    from is_full_check_None [OF idle(3)] have "\<not> internal_is_full E n" by simp
    with idle e show ?thesis by auto
  next
    case (root b n l r m ln)
    from is_full_check_None [OF root(3)] have "internal_is_full E n" by simp
    with root e show ?thesis by auto
  next
    case (inner b n l r m p pn ln)
    with e show ?thesis by auto
  qed
qed


subsection \<open>The root\<close>

text \<open>
  Claim C6. \<^verbatim>\<open>get_root\<close> is entered with the superblock acquired and the output
  lock empty. On an empty tree (the superblock's root is \<^verbatim>\<open>NULL_BLOCK_ID\<close>) it
  allocates a block, initialises it as an empty leaf with the current time, installs
  it as the root (which releases the superblock), adds one to the depth counter (so a
  counter at 0 goes to 1) and returns with the new block acquired. On a tree with a
  root it acquires that block and changes nothing else. Whenever it returns, the
  output lock is acquired, and the superblock is released exactly when a new root was
  installed.
\<close>

theorem get_root_returns_acquired_root:
  assumes "sb_buf st" and "buf st = None"
  shows "(root_block st = NULL_BLOCK_ID \<longrightarrow>
            get_root E st =
              Inr (st\<lparr>next_free := Suc (next_free st),
                      buf := Some (Blk (next_free st)),
                      blocks := (blocks st)(Blk (next_free st) \<mapsto>
                                  leaf_init E (block_size E) (clock st)),
                      root_block := Blk (next_free st),
                      sb_buf := False,
                      pm_btree_depth := pm_btree_depth st + 1\<rparr>))
       \<and> (root_block st \<noteq> NULL_BLOCK_ID \<longrightarrow> root_block st \<notin> set (held st) \<longrightarrow>
            blocks st (root_block st) \<noteq> None \<longrightarrow>
            get_root E st = Inr (st\<lparr>buf := Some (root_block st)\<rparr>))
       \<and> (\<forall>st'. get_root E st = Inr st' \<longrightarrow>
            buf st' \<noteq> None \<and> (\<not> sb_buf st' \<longleftrightarrow> root_block st = NULL_BLOCK_ID))"
  using assms
  by (auto simp: get_root_def insert_root_def rassert_def acquire_def Let_def ebind_eq_Inr
           split: option.splits if_splits)

theorem get_root_witness:
  "get_root (toy_env True refuse_oper) (empty_store\<lparr>sb_buf := True\<rparr>) =
     Inr (empty_store\<lparr>next_free := 2, buf := Some (Blk 1), blocks := [Blk 1 \<mapsto> TLeaf []],
            root_block := Blk 1, pm_btree_depth := 1\<rparr>)
   \<and> get_root (toy_env True refuse_oper) (leaf_store four\<lparr>sb_buf := True\<rparr>) =
     Inr (leaf_store four\<lparr>sb_buf := True, buf := Some (Blk 1)\<rparr>)"
proof -
  let ?E = "toy_env True refuse_oper"
  have a: "sb_buf (empty_store\<lparr>sb_buf := True\<rparr>)" "buf (empty_store\<lparr>sb_buf := True\<rparr>) = None"
    by (simp_all add: empty_store_def)
  have b: "sb_buf (leaf_store four\<lparr>sb_buf := True\<rparr>)" "buf (leaf_store four\<lparr>sb_buf := True\<rparr>) = None"
    by (simp_all add: leaf_store_def)
  from get_root_returns_acquired_root [OF a, of ?E] get_root_returns_acquired_root [OF b, of ?E]
  show ?thesis
    by (simp add: empty_store_def leaf_store_def held_def toy_env_def)
qed


subsection \<open>Splitting\<close>

text \<open>
  Claim C2. When \<^verbatim>\<open>check_and_handle_split\<close> splits the node under the cursor, the
  cursor afterwards names the original (left) block if the key is less than or equal
  to the median in the lexicographic order of keys, and the newly allocated right
  sibling otherwise; a key equal to the median stays on the left. The two halves that
  \<^verbatim>\<open>node::split\<close> produced are the contents of those two blocks.
\<close>

theorem split_redirects_cursor:
  assumes "buf st = Some b"
    and "blocks st b = Some node"
    and "is_full_check E node key new_val = Inr True"
    and "node_split E (block_size E) node = (node', rnode, median)"
    and "check_and_handle_split E key new_val st = Inr st'"
  shows "buf st' = (if key \<le> median then Some b else Some (Blk (next_free st)))
       \<and> (key = median \<longrightarrow> buf st' = Some b)
       \<and> (last_buf st \<noteq> Some b \<longrightarrow> last_buf st \<noteq> Some (Blk (next_free st)) \<longrightarrow>
            blocks st (Blk (next_free st)) = None \<longrightarrow>
            blocks st (Blk (Suc (next_free st))) = None \<longrightarrow>
            blocks st' b = Some node' \<and> blocks st' (Blk (next_free st)) = Some rnode)"
proof (cases "last_buf st")
  case None
  with assms show ?thesis
    by (cases "internal_insert E (block_size E) (internal_init E (block_size E)) median b (Blk (next_free st))")
       (auto simp: check_and_handle_split_def get_data_Some insert_root_def rassert_def Let_def
                 sized_strcmp_le split: if_splits)
next
  case (Some p)
  show ?thesis
  proof (cases "((blocks st)(b \<mapsto> node', Blk (next_free st) \<mapsto> rnode)) p")
    case None
    with Some assms show ?thesis
      by (simp add: check_and_handle_split_def get_data_def Let_def del: fun_upd_apply)
  next
    case (Some pn')
    with \<open>last_buf st = Some p\<close> assms show ?thesis
      by (cases "internal_insert E (block_size E) pn' median b (Blk (next_free st))")
         (auto simp: check_and_handle_split_def get_data_def Let_def rassert_def
                 sized_strcmp_le split: if_splits)
  qed
qed

theorem split_redirects_cursor_witness:
  "(case check_and_handle_split (toy_env True refuse_oper) [9] (Some (small [90]))
           (leaf_store four\<lparr>sb_buf := True, buf := Some (Blk 1)\<rparr>) of
      Inl e \<Rightarrow> False
    | Inr st' \<Rightarrow> buf st' = Some (Blk 2) \<and> blocks st' (Blk 1) = Some (TLeaf (take 2 four))
                \<and> blocks st' (Blk 2) = Some (TLeaf (drop 2 four)))
   \<and> (case check_and_handle_split (toy_env True refuse_oper) [2] (Some (small [20]))
           (leaf_store four\<lparr>sb_buf := True, buf := Some (Blk 1)\<rparr>) of
      Inl e \<Rightarrow> False
    | Inr st' \<Rightarrow> buf st' = Some (Blk 1))"
proof -
  let ?E = "toy_env True refuse_oper"
  let ?s = "leaf_store four\<lparr>sb_buf := True, buf := Some (Blk 1)\<rparr>"
  have "\<exists>s1. check_and_handle_split ?E [9] (Some (small [90])) ?s = Inr s1"
    by (simp add: walk_defs toy_defs leaf_store_def four_def)
  then obtain s1 where r1: "check_and_handle_split ?E [9] (Some (small [90])) ?s = Inr s1" ..
  have "\<exists>s2. check_and_handle_split ?E [2] (Some (small [20])) ?s = Inr s2"
    by (simp add: walk_defs toy_defs leaf_store_def four_def)
  then obtain s2 where r2: "check_and_handle_split ?E [2] (Some (small [20])) ?s = Inr s2" ..
  have sp: "node_split ?E (block_size ?E) (TLeaf four) = (TLeaf (take 2 four), TLeaf (drop 2 four), [3])"
    by (simp add: toy_defs four_def)
  have f1: "is_full_check ?E (TLeaf four) [9] (Some (small [90])) = Inr True"
    by (simp add: walk_defs toy_defs four_def)
  have f2: "is_full_check ?E (TLeaf four) [2] (Some (small [20])) = Inr True"
    by (simp add: walk_defs toy_defs four_def)
  have b: "buf ?s = Some (Blk 1)" "blocks ?s (Blk 1) = Some (TLeaf four)"
    by (simp_all add: leaf_store_def)
  from split_redirects_cursor [OF b f1 sp r1] split_redirects_cursor [OF b f2 sp r2] r1 r2
  show ?thesis
    by (simp add: leaf_store_def)
qed


subsection \<open>Merging\<close>

text \<open>
  Claim C5. When \<^verbatim>\<open>check_and_handle_underfull\<close> merges the node with its sibling,
  the block that was emptied is marked deleted and the cursor names the survivor. If
  the parent is a singleton, the parent block is marked deleted, the survivor's id is
  written to the superblock as the root (which releases the superblock) and the depth
  counter goes down by one. If the parent is not a singleton, the separator is taken
  out of the parent with \<^verbatim>\<open>internal_node::remove\<close>, and the root, the depth
  counter and the superblock lock stay as they were.
\<close>

theorem merge_collapses_singleton_root:
  assumes "buf st = Some b"
    and "blocks st b = Some node"
    and "last_buf st = Some p"
    and "blocks st p = Some parent"
    and "node_is_underfull E (block_size E) node"
    and "internal_sibling E parent key = (cmp, sib)"
    and "sib \<notin> set (held st)"
    and "blocks st sib = Some sib_node"
    and "assertions E \<longrightarrow> node_validate E (block_size E) sib_node"
    and "node_is_mergable E (block_size E) node sib_node parent"
    and "node_merge E (block_size E) (if cmp < 0 then node else sib_node)
           (if cmp < 0 then sib_node else node) parent = (l, r, key_to_remove)"
    and "internal_is_singleton E parent \<longrightarrow> sb_buf st"
  shows "\<exists>st'. check_and_handle_underfull E key st = Inr st'
       \<and> buf st' = Some (if cmp < 0 then sib else b)
       \<and> (if cmp < 0 then b else sib) \<in> deleted st'
       \<and> (internal_is_singleton E parent \<longrightarrow>
            p \<in> deleted st' \<and> root_block st' = (if cmp < 0 then sib else b)
            \<and> pm_btree_depth st' = pm_btree_depth st - 1 \<and> \<not> sb_buf st')
       \<and> (\<not> internal_is_singleton E parent \<longrightarrow>
            blocks st' p = Some (internal_remove E (block_size E) parent key_to_remove)
            \<and> root_block st' = root_block st \<and> pm_btree_depth st' = pm_btree_depth st
            \<and> sb_buf st' = sb_buf st \<and> deleted st' = insert (if cmp < 0 then b else sib) (deleted st))"
  using assms
  by (cases "cmp < 0"; cases "internal_is_singleton E parent")
     (simp_all add: check_and_handle_underfull_def get_data_def acquire_def insert_root_def
                 rassert_def Let_def)

theorem merge_collapses_singleton_root_witness:
  "(case check_and_handle_underfull (toy_env True refuse_oper) [5]
           (family_store [([10], Blk 2)] (Blk 3) twins
              \<lparr>sb_buf := True, last_buf := Some (Blk 1), buf := Some (Blk 2)\<rparr>) of
      Inl e \<Rightarrow> False
    | Inr st' \<Rightarrow> buf st' = Some (Blk 3) \<and> root_block st' = Blk 3 \<and> deleted st' = {Blk 1, Blk 2}
                \<and> pm_btree_depth st' = 1 \<and> \<not> sb_buf st')
   \<and> (case check_and_handle_underfull (toy_env True refuse_oper) [5]
           (family_store [([10], Blk 2), ([30], Blk 3)] (Blk 4) twins
              \<lparr>sb_buf := True, last_buf := Some (Blk 1), buf := Some (Blk 2)\<rparr>) of
      Inl e \<Rightarrow> False
    | Inr st' \<Rightarrow> buf st' = Some (Blk 3) \<and> root_block st' = Blk 1 \<and> deleted st' = {Blk 2}
                \<and> pm_btree_depth st' = 2 \<and> sb_buf st'
                \<and> blocks st' (Blk 1) = Some (TInternal [([30], Blk 3)] (Blk 4)))"
proof -
  let ?E = "toy_env True refuse_oper"
  let ?p1 = "TInternal [([10], Blk 2)] (Blk 3)"
  let ?p2 = "TInternal [([10], Blk 2), ([30], Blk 3)] (Blk 4)"
  let ?s = "family_store [([10], Blk 2)] (Blk 3) twins
              \<lparr>sb_buf := True, last_buf := Some (Blk 1), buf := Some (Blk 2)\<rparr>"
  let ?t = "family_store [([10], Blk 2), ([30], Blk 3)] (Blk 4) twins
              \<lparr>sb_buf := True, last_buf := Some (Blk 1), buf := Some (Blk 2)\<rparr>"
  let ?n = "TLeaf [([5], small [50])]"
  let ?sib = "TLeaf [([15], small [15]), ([20], small [20])]"
  let ?r = "TLeaf [([5], small [50]), ([15], small [15]), ([20], small [20])]"
  have s: "buf ?s = Some (Blk 2)" "blocks ?s (Blk 2) = Some ?n" "last_buf ?s = Some (Blk 1)"
    "blocks ?s (Blk 1) = Some ?p1" "Blk 3 \<notin> set (held ?s)" "blocks ?s (Blk 3) = Some ?sib"
    by (simp_all add: family_store_def twins_def held_def)
  have t: "buf ?t = Some (Blk 2)" "blocks ?t (Blk 2) = Some ?n" "last_buf ?t = Some (Blk 1)"
    "blocks ?t (Blk 1) = Some ?p2" "Blk 3 \<notin> set (held ?t)" "blocks ?t (Blk 3) = Some ?sib"
    by (simp_all add: family_store_def twins_def held_def)
  have e: "node_is_underfull ?E (block_size ?E) ?n"
    "internal_sibling ?E ?p1 [5] = (- 1, Blk 3)" "internal_sibling ?E ?p2 [5] = (- 1, Blk 3)"
    "assertions ?E \<longrightarrow> node_validate ?E (block_size ?E) ?sib"
    "node_is_mergable ?E (block_size ?E) ?n ?sib ?p1"
    "node_is_mergable ?E (block_size ?E) ?n ?sib ?p2"
    by (simp_all add: toy_defs)
  have m1: "node_merge ?E (block_size ?E) (if (- 1 :: int) < 0 then ?n else ?sib)
              (if (- 1 :: int) < 0 then ?sib else ?n) ?p1 = (?n, ?r, [10])"
    by (simp add: toy_defs)
  have m2: "node_merge ?E (block_size ?E) (if (- 1 :: int) < 0 then ?n else ?sib)
              (if (- 1 :: int) < 0 then ?sib else ?n) ?p2 = (?n, ?r, [10])"
    by (simp add: toy_defs)
  have g1: "internal_is_singleton ?E ?p1 \<longrightarrow> sb_buf ?s"
    and g2: "internal_is_singleton ?E ?p2 \<longrightarrow> sb_buf ?t"
    by (simp_all add: family_store_def)
  have i1: "internal_is_singleton ?E ?p1" and i2: "\<not> internal_is_singleton ?E ?p2"
    and rm: "internal_remove ?E (block_size ?E) ?p2 [10] = TInternal [([30], Blk 3)] (Blk 4)"
    by (simp_all add: toy_defs)
  have d: "deleted ?s = {}" "deleted ?t = {}" "pm_btree_depth ?s = 2" "pm_btree_depth ?t = 2"
    "root_block ?t = Blk 1" "sb_buf ?t"
    by (simp_all add: family_store_def)
  from merge_collapses_singleton_root [OF s(1-4) e(1) e(2) s(5) s(6) e(4) e(5) m1 g1]
  obtain s' where s': "check_and_handle_underfull ?E [5] ?s = Inr s'"
    "buf s' = Some (Blk 3)" "Blk 2 \<in> deleted s'" "Blk 1 \<in> deleted s'" "root_block s' = Blk 3"
    "pm_btree_depth s' = 1" "\<not> sb_buf s'"
    using i1 d by auto
  from merge_collapses_singleton_root [OF t(1-4) e(1) e(3) t(5) t(6) e(4) e(6) m2 g2]
  obtain t' where t': "check_and_handle_underfull ?E [5] ?t = Inr t'"
    "buf t' = Some (Blk 3)" "deleted t' = {Blk 2}" "root_block t' = Blk 1"
    "pm_btree_depth t' = 2" "sb_buf t'" "blocks t' (Blk 1) = Some (TInternal [([30], Blk 3)] (Blk 4))"
    using i2 d rm by auto
  have "deleted s' = {Blk 1, Blk 2}"
    using s'(1) by (simp add: walk_defs toy_defs family_store_def twins_def) auto
  with s' t' show ?thesis by simp
qed

subsection \<open>At the leaf\<close>

text \<open>
  Claim C3. When the key is found in the leaf with an expired value, the operator is
  called with no old value. If it then returns \<^verbatim>\<open>update_needed = false\<close>, the walk
  goes on as for a deletion: the key is removed from the leaf with \<^verbatim>\<open>leaf::remove\<close>,
  the underfull check runs on the leaf, and the locks are released with
  \<^verbatim>\<open>update_needed\<close> true. When the leaf is the root and the operator has left no old
  large value behind, the walk returns with the key removed and nothing else changed.
\<close>

theorem expired_key_is_removed:
  assumes "get_root E (st0\<lparr>sb_buf := True, last_buf := None, buf := None\<rparr>) = Inr st1"
    and "descend E key fuel st1 = Inr st"
    and "buf st = Some b"
    and "blocks st b = Some node"
    and "leaf_lookup E node key = Some ov"
    and "expired E ov"
    and "acquire_old_large E (Some ov) = Inr old_lock"
    and "operate E None old_lock = res"
    and "\<not> update_needed res"
    and "check_operate_result E res = Inr ()"
  shows "run_btree_modify_oper E fuel key st0 =
           ebind (check_and_handle_underfull E key
                    (st\<lparr>blocks := (blocks st)(b \<mapsto> leaf_remove E (block_size E) node key)\<rparr>))
             (release_all E True (Some ov) res)
       \<and> (last_buf st = None \<longrightarrow> old_large_buflock res = None \<longrightarrow>
            run_btree_modify_oper E fuel key st0 =
              Inr (st\<lparr>blocks := (blocks st)(b \<mapsto> leaf_remove E (block_size E) node key),
                      sb_buf := False, buf := None, last_buf := None\<rparr>))"
  using assms
  by (simp add: run_btree_modify_oper_def apply_at_leaf_def update_leaf_def get_data_def
                rassert_def Let_def check_and_handle_underfull_def release_all_def)

theorem expired_key_is_removed_witness:
  "run_btree_modify_oper (toy_env True refuse_oper) 0 [1] (leaf_store [([1], stale), ([3], small [30])]) =
     Inr (leaf_store [([3], small [30])])"
proof -
  let ?E = "toy_env True refuse_oper"
  let ?init = "leaf_store [([1], stale), ([3], small [30])]"
  let ?s = "?init\<lparr>sb_buf := True, buf := Some (Blk 1)\<rparr>"
  have g: "get_root ?E (?init\<lparr>sb_buf := True, last_buf := None, buf := None\<rparr>) = Inr ?s"
    by (simp add: walk_defs toy_defs leaf_store_def)
  have d: "descend ?E [1] 0 ?s = Inr ?s"
    by (simp add: walk_defs toy_defs leaf_store_def)
  have l: "buf ?s = Some (Blk 1)" "blocks ?s (Blk 1) = Some (TLeaf [([1], stale), ([3], small [30])])"
    "last_buf ?s = None"
    by (simp_all add: leaf_store_def)
  have o: "leaf_lookup ?E (TLeaf [([1], stale), ([3], small [30])]) [1] = Some stale"
    "expired ?E stale" "acquire_old_large ?E (Some stale) = Inr None"
    "operate ?E None None = refuse_oper None None" "\<not> update_needed (refuse_oper None None)"
    "check_operate_result ?E (refuse_oper None None) = Inr ()"
    "old_large_buflock (refuse_oper None None) = None"
    by (simp_all add: walk_defs toy_defs stale_def)
  note r = expired_key_is_removed [where ?st0.0 = ?init, OF g d l(1,2) o(1-6)]
  have x: "leaf_remove ?E (block_size ?E) (TLeaf [([1], stale), ([3], small [30])]) [1] = TLeaf [([3], small [30])]"
    by (simp add: toy_defs)
  from r [THEN conjunct2, rule_format, OF l(3) o(7)] x
  show ?thesis
    by (simp add: leaf_store_def)
qed

text \<open>
  Claim C4. On the insert path the value handed to \<^verbatim>\<open>leaf::insert\<close> has its CAS set
  to the value that \<^verbatim>\<open>slice->gen_cas()\<close> returns exactly when the new value has a CAS
  and the operator's \<^verbatim>\<open>cas_already_set\<close> is false; otherwise the value is stored as
  the operator returned it and the slice is not touched. The CAS is generated on the
  state that the split check leaves (which has the slice of the state before it), the
  insertion follows, and the slice that the walk commits is the slice after that one
  call of \<^verbatim>\<open>gen_cas\<close>.
\<close>

theorem cas_assigned_before_insert:
  assumes "get_root E (st0\<lparr>sb_buf := True, last_buf := None, buf := None\<rparr>) = Inr root_st"
    and "descend E key fuel root_st = Inr st"
    and "buf st = Some b"
    and "blocks st b = Some node"
    and "leaf_lookup E node key = old"
    and "acquire_old_large E old = Inr old_lock"
    and "operate E (if old \<noteq> None \<and> \<not> (case old of None \<Rightarrow> False | Some ov \<Rightarrow> expired E ov)
                    then old else None) old_lock = res"
    and "update_needed res"
    and "new_value res = Some v"
    and "check_operate_result E res = Inr ()"
    and "check_and_handle_split E key (Some v) st = Inr st1"
    and "buf st1 = Some b1"
    and "blocks st1 b1 = Some leaf"
    and "assign \<longleftrightarrow> has_cas E v \<and> \<not> cas_already_set res"
    and "stored = (if assign then set_cas E v (fst (gen_cas E (slice st1))) else v)"
    and "sl = (if assign then snd (gen_cas E (slice st1)) else slice st)"
  shows "run_btree_modify_oper E fuel key st0 =
           (case leaf_insert E (block_size E) leaf key stored (clock st1) of
              None \<Rightarrow> Inl (Guarantee 281)
            | Some leaf' \<Rightarrow>
                ebind (check_and_handle_underfull E key
                         (st1\<lparr>slice := sl, blocks := (blocks st1)(b1 \<mapsto> leaf')\<rparr>))
                  (release_all E True old res))
       \<and> slice st1 = slice st
       \<and> (\<forall>st'. run_btree_modify_oper E fuel key st0 = Inr st' \<longrightarrow> slice st' = sl)"
proof -
  note sl1 = check_and_handle_split_slice [OF assms(11)]
  have run: "run_btree_modify_oper E fuel key st0 =
           (case leaf_insert E (block_size E) leaf key stored (clock st1) of
              None \<Rightarrow> Inl (Guarantee 281)
            | Some leaf' \<Rightarrow>
                ebind (check_and_handle_underfull E key
                         (st1\<lparr>slice := sl, blocks := (blocks st1)(b1 \<mapsto> leaf')\<rparr>))
                  (release_all E True old res))"
  proof (cases old)
    case None
    with assms(1-13) assms(15,16) sl1 show ?thesis
      by (cases assign; cases "gen_cas E (slice st)")
         (auto simp: assms(14) [symmetric] run_btree_modify_oper_def apply_at_leaf_def
                    update_leaf_def get_data_def Let_def split: option.splits)
  next
    case (Some ov)
    with assms(1-13) assms(15,16) sl1 show ?thesis
      by (cases assign; cases "gen_cas E (slice st)"; cases "expired E ov")
         (auto simp: assms(14) [symmetric] run_btree_modify_oper_def apply_at_leaf_def
                    update_leaf_def get_data_def Let_def split: option.splits)
  qed
  have "slice st' = sl" if "run_btree_modify_oper E fuel key st0 = Inr st'" for st'
  proof (cases "leaf_insert E (block_size E) leaf key stored (clock st1)")
    case None
    with run that show ?thesis by simp
  next
    case (Some leaf')
    with run that have "ebind (check_and_handle_underfull E key
                 (st1\<lparr>slice := sl, blocks := (blocks st1)(b1 \<mapsto> leaf')\<rparr>))
             (release_all E True old res) = Inr st'"
      by simp
    then obtain st2 where u:
      "check_and_handle_underfull E key (st1\<lparr>slice := sl, blocks := (blocks st1)(b1 \<mapsto> leaf')\<rparr>) = Inr st2"
      and r: "release_all E True old res st2 = Inr st'"
      unfolding ebind_eq_Inr by blast
    from check_and_handle_underfull_slice [OF u] release_all_slice [OF r]
    show ?thesis by simp
  qed
  with run sl1 show ?thesis by simp
qed

theorem cas_assigned_before_insert_witness:
  "run_btree_modify_oper (toy_env True (set_oper tagged)) 0 [2] (leaf_store [([1], small [10])]) =
     Inr (leaf_store [([1], small [10]), ([2], tagged\<lparr>tv_cas := 40\<rparr>)]\<lparr>slice := 41\<rparr>)
   \<and> run_btree_modify_oper (toy_env True (set_oper (small [20]))) 0 [2] (leaf_store [([1], small [10])]) =
     Inr (leaf_store [([1], small [10]), ([2], small [20])])"
proof -
  let ?E = "toy_env True (set_oper tagged)"
  let ?F = "toy_env True (set_oper (small [20]))"
  let ?init = "leaf_store [([1], small [10])]"
  let ?leaf = "?init\<lparr>sb_buf := True, buf := Some (Blk 1)\<rparr>"
  let ?n = "TLeaf [([1], small [10])]"
  have g: "get_root ?E (?init\<lparr>sb_buf := True, last_buf := None, buf := None\<rparr>) = Inr ?leaf"
    "get_root ?F (?init\<lparr>sb_buf := True, last_buf := None, buf := None\<rparr>) = Inr ?leaf"
    by (simp_all add: walk_defs toy_defs leaf_store_def)
  have d: "descend ?E [2] 0 ?leaf = Inr ?leaf" "descend ?F [2] 0 ?leaf = Inr ?leaf"
    by (simp_all add: walk_defs toy_defs leaf_store_def)
  have l: "buf ?leaf = Some (Blk 1)" "blocks ?leaf (Blk 1) = Some ?n"
    by (simp_all add: leaf_store_def)
  have o: "leaf_lookup ?E ?n [2] = None" "acquire_old_large ?E None = Inr None"
    "operate ?E (if None \<noteq> None \<and> \<not> (case None of None \<Rightarrow> False | Some ov \<Rightarrow> expired ?E ov)
                  then None else None) None = set_oper tagged None None"
    "update_needed (set_oper tagged None None)" "new_value (set_oper tagged None None) = Some tagged"
    "check_operate_result ?E (set_oper tagged None None) = Inr ()"
    "check_and_handle_split ?E [2] (Some tagged) ?leaf = Inr ?leaf"
    "True \<longleftrightarrow> has_cas ?E tagged \<and> \<not> cas_already_set (set_oper tagged None None)"
    "tagged\<lparr>tv_cas := 40\<rparr> = (if True then set_cas ?E tagged (fst (gen_cas ?E (slice ?leaf))) else tagged)"
    "41 = (if True then snd (gen_cas ?E (slice ?leaf)) else slice ?leaf)"
    by (simp_all add: walk_defs toy_defs leaf_store_def tagged_def)
  have p: "leaf_lookup ?F ?n [2] = None" "acquire_old_large ?F None = Inr None"
    "operate ?F (if None \<noteq> None \<and> \<not> (case None of None \<Rightarrow> False | Some ov \<Rightarrow> expired ?F ov)
                  then None else None) None = set_oper (small [20]) None None"
    "update_needed (set_oper (small [20]) None None)"
    "new_value (set_oper (small [20]) None None) = Some (small [20])"
    "check_operate_result ?F (set_oper (small [20]) None None) = Inr ()"
    "check_and_handle_split ?F [2] (Some (small [20])) ?leaf = Inr ?leaf"
    "False \<longleftrightarrow> has_cas ?F (small [20]) \<and> \<not> cas_already_set (set_oper (small [20]) None None)"
    "small [20] = (if False then set_cas ?F (small [20]) (fst (gen_cas ?F (slice ?leaf))) else small [20])"
    "40 = (if False then snd (gen_cas ?F (slice ?leaf)) else slice ?leaf)"
    by (simp_all add: walk_defs toy_defs leaf_store_def)
  have i: "leaf_insert ?E (block_size ?E) ?n [2] (tagged\<lparr>tv_cas := 40\<rparr>) (clock ?leaf) =
             Some (TLeaf [([1], small [10]), ([2], tagged\<lparr>tv_cas := 40\<rparr>)])"
    "leaf_insert ?F (block_size ?F) ?n [2] (small [20]) (clock ?leaf) =
             Some (TLeaf [([1], small [10]), ([2], small [20])])"
    by (simp_all add: toy_defs leaf_store_def)
  from cas_assigned_before_insert [where ?st0.0 = ?init, OF g(1) d(1) l o(1-7) l o(8-10), THEN conjunct1]
       cas_assigned_before_insert [where ?st0.0 = ?init, OF g(2) d(2) l p(1-7) l p(8-10), THEN conjunct1]
       i
  show ?thesis
    by (simp add: walk_defs toy_defs leaf_store_def tagged_def)
qed

text \<open>
  Claim C9. When the operator returns \<^verbatim>\<open>update_needed = false\<close> and the key is absent
  or its value is not expired, the walk does nothing at the leaf: it returns the state
  that the descent left, with the three locks released; no block is written, none is
  marked deleted, and the old large value is kept. A descent through a quiet store
  with a root changes nothing either, so the walk then commits the store it started
  with.
\<close>

theorem refusal_changes_nothing:
  assumes "get_root E (st0\<lparr>sb_buf := True, last_buf := None, buf := None\<rparr>) = Inr st1"
    and "descend E key fuel st1 = Inr st"
    and "buf st = Some b"
    and "blocks st b = Some node"
    and "leaf_lookup E node key = old"
    and "\<forall>ov. old = Some ov \<longrightarrow> \<not> expired E ov"
    and "acquire_old_large E old = Inr old_lock"
    and "operate E old old_lock = res"
    and "\<not> update_needed res"
    and "check_operate_result E res = Inr ()"
  shows "run_btree_modify_oper E fuel key st0 =
           Inr (st\<lparr>sb_buf := False, last_buf := None, buf := None\<rparr>)
       \<and> (root_block st0 \<noteq> NULL_BLOCK_ID \<longrightarrow> quiet E st0 \<longrightarrow>
            run_btree_modify_oper E fuel key st0 =
              Inr (st0\<lparr>sb_buf := False, last_buf := None, buf := None\<rparr>))"
proof -
  have leaf: "apply_at_leaf E key st = Inr (st\<lparr>sb_buf := False, last_buf := None, buf := None\<rparr>)"
    using assms(3-10)
    by (cases old)
       (simp_all add: apply_at_leaf_def update_leaf_def get_data_def rassert_def Let_def
                   release_all_def)
  then have run: "run_btree_modify_oper E fuel key st0 =
           Inr (st\<lparr>sb_buf := False, last_buf := None, buf := None\<rparr>)"
    using assms(1,2) by (simp add: run_btree_modify_oper_def)
  have "st\<lparr>sb_buf := False, last_buf := None, buf := None\<rparr> =
        st0\<lparr>sb_buf := False, last_buf := None, buf := None\<rparr>"
    if r: "root_block st0 \<noteq> NULL_BLOCK_ID" and q: "quiet E st0"
  proof -
    from r assms(1) have s1: "st1 = st0\<lparr>sb_buf := True, last_buf := None, buf := Some (root_block st0)\<rparr>"
      using get_root_existing [of "st0\<lparr>sb_buf := True, last_buf := None, buf := None\<rparr>" E st1]
      by simp
    with q have "quiet E st1" by (simp add: quiet_def)
    from descend_quiet [OF this assms(2)] s1 show ?thesis by simp
  qed
  with run show ?thesis by simp
qed

theorem refusal_changes_nothing_witness:
  "run_btree_modify_oper (toy_env True refuse_oper) 0 [3] (leaf_store four) = Inr (leaf_store four)"
proof -
  let ?E = "toy_env True refuse_oper"
  let ?init = "leaf_store four"
  let ?leaf = "?init\<lparr>sb_buf := True, buf := Some (Blk 1)\<rparr>"
  have g: "get_root ?E (?init\<lparr>sb_buf := True, last_buf := None, buf := None\<rparr>) = Inr ?leaf"
    by (simp add: walk_defs toy_defs leaf_store_def)
  have d: "descend ?E [3] 0 ?leaf = Inr ?leaf"
    by (simp add: walk_defs toy_defs leaf_store_def)
  have l: "buf ?leaf = Some (Blk 1)" "blocks ?leaf (Blk 1) = Some (TLeaf four)"
    by (simp_all add: leaf_store_def)
  have o: "leaf_lookup ?E (TLeaf four) [3] = Some (small [30])"
    "\<forall>ov. Some (small [30]) = Some ov \<longrightarrow> \<not> expired ?E ov"
    "acquire_old_large ?E (Some (small [30])) = Inr None"
    "operate ?E (Some (small [30])) None = refuse_oper (Some (small [30])) None"
    "\<not> update_needed (refuse_oper (Some (small [30])) None)"
    "check_operate_result ?E (refuse_oper (Some (small [30])) None) = Inr ()"
    by (simp_all add: walk_defs toy_defs four_def)
  have q: "root_block ?init \<noteq> NULL_BLOCK_ID" "quiet ?E ?init"
    by (simp_all add: leaf_store_def quiet_def toy_defs four_def)
  from refusal_changes_nothing [where ?st0.0 = ?init, OF g d l o, THEN conjunct2, rule_format, OF q]
  show ?thesis
    by (simp add: leaf_store_def)
qed

text \<open>
  Claim C1. An operator that replaces a large value by another large value with a
  handle of its own leaves both large-value locks set. With assertions checked, the
  walk stops at the \<^verbatim>\<open>rassert(!new_large_buflock.has_lv())\<close> of line 309, before
  the old large value is marked deleted. With assertions compiled out, the same
  walk marks the old root deleted and leaves the new value in the leaf.
\<close>

theorem large_swap_trips_assertion:
  "run_btree_modify_oper (toy_env True (set_oper (big [2] (Blk 200)))) 0 [1]
     (leaf_store [([1], big [1] (Blk 100))]) = Inl (Rassert 309)
   \<and> run_btree_modify_oper (toy_env False (set_oper (big [2] (Blk 200)))) 0 [1]
     (leaf_store [([1], big [1] (Blk 100))]) =
       Inr (leaf_store [([1], big [2] (Blk 200))]\<lparr>deleted := {Blk 100}\<rparr>)"
  by (simp add: walk_defs toy_defs leaf_store_def)

subsection \<open>The superblock lock during the descent\<close>

text \<open>
  Claim C7, as stated, says that the superblock lock is held exactly while the cursor
  is at the root or at a direct child of the root, and that it is released at lines
  200-202 of the first iteration that finds both \<^verbatim>\<open>sb_buf\<close> and \<^verbatim>\<open>last_buf\<close>
  acquired, every iteration entered at the root leaving it held. A root that is full
  refutes this: the first iteration splits it, \<^verbatim>\<open>insert_root\<close> (line 68) installs the
  new parent and releases the superblock, and from there on the cursor is at a direct
  child of the root with the superblock released; the iteration ends with it released.
\<close>

theorem root_split_releases_superblock:
  "get_root (toy_env True refuse_oper) (wide\<lparr>sb_buf := True, last_buf := None, buf := None\<rparr>) =
     Inr (wide\<lparr>sb_buf := True, buf := Some (Blk 1)\<rparr>)
   \<and> \<not> isl (check_and_handle_split (toy_env True refuse_oper) [15] None
               (wide\<lparr>sb_buf := True, buf := Some (Blk 1)\<rparr>))
   \<and> \<not> sb_buf (projr (check_and_handle_split (toy_env True refuse_oper) [15] None
               (wide\<lparr>sb_buf := True, buf := Some (Blk 1)\<rparr>)))
   \<and> near_root (projr (check_and_handle_split (toy_env True refuse_oper) [15] None
               (wide\<lparr>sb_buf := True, buf := Some (Blk 1)\<rparr>)))
   \<and> \<not> isl (descend_step (toy_env True refuse_oper) [15]
               (wide\<lparr>sb_buf := True, buf := Some (Blk 1)\<rparr>))
   \<and> \<not> sb_buf (projr (descend_step (toy_env True refuse_oper) [15]
               (wide\<lparr>sb_buf := True, buf := Some (Blk 1)\<rparr>)))"
  by (simp add: walk_defs toy_defs wide_def family_store_def six_def near_root_def)

text \<open>
  Claim C7, amended. At the test of the loop the superblock lock is held exactly when
  the tree had a root and either no iteration has run (the cursor is at the root) or
  one iteration has run and the root was not full (the cursor is at a direct child of
  the root, and the root was not split). An iteration leaves the superblock held
  exactly when it was entered with the superblock held, \<^verbatim>\<open>last_buf\<close> unacquired and
  a node under the cursor that is not full: so the superblock is released in the first
  iteration entered with both locks acquired, or before that by \<^verbatim>\<open>insert_root\<close>, in
  \<^verbatim>\<open>get_root\<close> on an empty tree or in the split of a full root. Whenever the
  superblock is held, the cursor is at the root or at a direct child of the root.
\<close>

theorem superblock_held_exactly:
  fixes E :: "('n, 'v, 's) env"
  assumes g: "get_root E (st0\<lparr>sb_buf := True, last_buf := None, buf := None\<rparr>) = Inr st"
    and h: "loop_head_at E key st n s"
  shows "(sb_buf s \<longleftrightarrow>
            root_block st0 \<noteq> NULL_BLOCK_ID
            \<and> (n = 0 \<or> n = 1 \<and> (\<exists>node. blocks st0 (root_block st0) = Some node
                                    \<and> \<not> internal_is_full E node)))
       \<and> (\<forall>s'. descend_step E key s = Inr s' \<longrightarrow>
             (sb_buf s' \<longleftrightarrow>
                sb_buf s \<and> last_buf s = None
                \<and> (\<exists>b node. buf s = Some b \<and> blocks s b = Some node
                              \<and> \<not> internal_is_full E node)))
       \<and> (sb_buf s \<longrightarrow> near_root s)"
proof (intro conjI)
  note l = get_root_locks [OF g]
  from h show "sb_buf s \<longleftrightarrow>
            root_block st0 \<noteq> NULL_BLOCK_ID
            \<and> (n = 0 \<or> n = 1 \<and> (\<exists>node. blocks st0 (root_block st0) = Some node
                                    \<and> \<not> internal_is_full E node))"
  proof (cases rule: loop_head_at.cases)
    case at_start
    with l show ?thesis by simp
  next
    case (at_step m t b node)
    note d = descend_step_superblock [OF at_step(5)]
    show ?thesis
    proof (cases m)
      case 0
      with at_step(2) have t: "t = st" by (simp add: loop_head_at_0)
      show ?thesis
      proof (cases "root_block st0 = NULL_BLOCK_ID")
        case True
        with l d t at_step(1) show ?thesis by simp
      next
        case False
        with l have "st = st0\<lparr>sb_buf := True, last_buf := None, buf := Some (root_block st0)\<rparr>"
          by simp
        with d t at_step(1) 0 False show ?thesis by simp
      qed
    next
      case (Suc k)
      with at_step(2) have "last_buf t \<noteq> None" by (simp add: loop_head_at_Suc)
      with d at_step(1) Suc show ?thesis by simp
    qed
  qed
next
  show "\<forall>s'. descend_step E key s = Inr s' \<longrightarrow>
             (sb_buf s' \<longleftrightarrow>
                sb_buf s \<and> last_buf s = None
                \<and> (\<exists>b node. buf s = Some b \<and> blocks s b = Some node
                              \<and> \<not> internal_is_full E node))"
    using descend_step_superblock [of E key s] by blast
next
  note l = get_root_locks [OF g]
  have "sb_buf st \<longrightarrow> near_root st"
  proof
    assume "sb_buf st"
    with l have "st = st0\<lparr>sb_buf := True, last_buf := None, buf := Some (root_block st0)\<rparr>"
      by simp
    then show "near_root st" by (simp add: near_root_def)
  qed
  from loop_head_near_root [OF loop_head_at_loop_head [OF h] this]
  show "sb_buf s \<longrightarrow> near_root s" .
qed

theorem superblock_held_exactly_witness:
  "descend_step (toy_env True refuse_oper) [3] (tall\<lparr>sb_buf := True, buf := Some (Blk 1)\<rparr>) =
     Inr (tall\<lparr>sb_buf := True, last_buf := Some (Blk 1), buf := Some (Blk 2)\<rparr>)
   \<and> sb_buf (tall\<lparr>sb_buf := True, last_buf := Some (Blk 1), buf := Some (Blk 2)\<rparr>)
   \<and> near_root (tall\<lparr>sb_buf := True, last_buf := Some (Blk 1), buf := Some (Blk 2)\<rparr>)
   \<and> descend_step (toy_env True refuse_oper) [3]
         (tall\<lparr>sb_buf := True, last_buf := Some (Blk 1), buf := Some (Blk 2)\<rparr>) =
     Inr (tall\<lparr>sb_buf := False, last_buf := Some (Blk 2), buf := Some (Blk 5)\<rparr>)
   \<and> \<not> sb_buf (tall\<lparr>sb_buf := False, last_buf := Some (Blk 2), buf := Some (Blk 5)\<rparr>)"
proof -
  let ?E = "toy_env True refuse_oper"
  let ?a = "tall\<lparr>sb_buf := True, buf := Some (Blk 1)\<rparr>"
  let ?b = "tall\<lparr>sb_buf := True, last_buf := Some (Blk 1), buf := Some (Blk 2)\<rparr>"
  let ?c = "tall\<lparr>sb_buf := False, last_buf := Some (Blk 2), buf := Some (Blk 5)\<rparr>"
  have g: "get_root ?E (tall\<lparr>sb_buf := True, last_buf := None, buf := None\<rparr>) = Inr ?a"
    by (simp add: walk_defs toy_defs tall_def)
  have ab: "descend_step ?E [3] ?a = Inr ?b"
    by (simp add: walk_defs toy_defs tall_def)
  have bc: "descend_step ?E [3] ?b = Inr ?c"
    by (simp add: walk_defs toy_defs tall_def)
  have d: "get_data 190 (buf ?a) ?a = Inr (Blk 1, TInternal [([20], Blk 2), ([60], Blk 3)] (Blk 4))"
    "is_internal ?E (TInternal [([20], Blk 2), ([60], Blk 3)] (Blk 4))"
    by (simp_all add: walk_defs toy_defs tall_def)
  have h: "loop_head_at ?E [3] ?a (Suc 0) ?b"
    by (rule loop_head_at.at_step [OF loop_head_at.at_start d ab])
  note t = superblock_held_exactly [OF g h]
  note t1 = t [THEN conjunct1]
  note t2 = t [THEN conjunct2, THEN conjunct1, rule_format, OF bc]
  note t3 = t [THEN conjunct2, THEN conjunct2]
  from t1 t2 t3 ab bc show ?thesis
    by (simp add: tall_def toy_defs near_root_def)
qed

text \<open>
  Claim C8. In \<^verbatim>\<open>check_and_handle_split\<close> the insertion of the median into the parent
  (line 74) never fails, so the assertion of line 75 never fires: every internal node
  on the way down was split before the walk went into one of its children, so the
  parent of a node that is split is not full. The node primitives are not part of the
  file; they are assumed to satisfy \<open>room_contract\<close> (an insertion into a node that is
  not full succeeds, and a fresh node, the halves of a split, the survivor of a merge
  and a levelled node are not full), and the blocks the allocator hands out are new.
\<close>

theorem parent_never_full:
  assumes "room_contract E" and "fresh st0"
  shows "run_btree_modify_oper E fuel key st0 \<noteq> Inl (Rassert 75)"
proof (cases "get_root E (st0\<lparr>sb_buf := True, last_buf := None, buf := None\<rparr>)")
  case (Inl e)
  with get_root_not_75 [of E "st0\<lparr>sb_buf := True, last_buf := None, buf := None\<rparr>"]
  show ?thesis by (simp add: run_btree_modify_oper_def)
next
  case (Inr st1)
  note r1 = get_root_room [OF assms(2) Inr]
  note d = descend_room [OF assms(1) r1, of key fuel]
  show ?thesis
  proof (cases "descend E key fuel st1")
    case (Inl e)
    with d Inr show ?thesis by (simp add: run_btree_modify_oper_def)
  next
    case st: (Inr st)
    with d have "parent_has_room E st" by simp
    from apply_at_leaf_not_75 [OF assms(1) this, of key] Inr st show ?thesis
      by (simp add: run_btree_modify_oper_def)
  qed
qed

theorem parent_never_full_witness:
  "run_btree_modify_oper (toy_env True (set_oper (small [2]))) (Suc 0) [2] crowded \<noteq> Inl (Rassert 75)
   \<and> map_option pairs_of
       (blocks (projr (run_btree_modify_oper (toy_env True (set_oper (small [2]))) (Suc 0) [2] crowded))
          (Blk 1)) = Some [([3], Blk 2), ([10], Blk 10)]"
proof -
  have "map_option pairs_of
       (blocks (projr (run_btree_modify_oper (toy_env True (set_oper (small [2]))) (Suc 0) [2] crowded))
          (Blk 1)) = Some [([3], Blk 2), ([10], Blk 10)]"
    by (simp add: walk_defs toy_defs crowded_def family_store_def four_def pair_leaf_def)
  with parent_never_full [where E = "toy_env True (set_oper (small [2]))" and fuel = "Suc 0"
                            and key = "[2]", OF toy_room_contract fresh_crowded]
  show ?thesis by simp
qed

text \<open>
  Claim C10. At every call of \<^verbatim>\<open>insert_root\<close> (by \<^verbatim>\<open>get_root\<close> on an empty tree, line
  164; by \<^verbatim>\<open>check_and_handle_split\<close> when \<^verbatim>\<open>last_buf\<close> is unacquired, line 68; by
  \<^verbatim>\<open>check_and_handle_underfull\<close> when the parent is a singleton, line 134) the
  superblock lock is held: the assertion of line 29 never fails, and with assertions
  compiled out line 30 never uses a released lock. The node primitives are not part of
  the file; they are assumed to satisfy \<open>root_contract\<close>, and the blocks the allocator
  hands out are new. The proof carries \<open>root_safe\<close> through the walk: while
  \<^verbatim>\<open>last_buf\<close> is unacquired the superblock is held (or the cursor is on the leaf
  just installed, which is not split), and once the superblock is released the node in
  \<^verbatim>\<open>last_buf\<close> is not a singleton, so no merge below it replaces the root.
\<close>

theorem superblock_held_at_insert_root:
  fixes E :: "('n, 'v, 's) env"
  assumes "root_contract E" and "fresh st0"
  shows "run_btree_modify_oper E fuel key st0 \<noteq> Inl (Rassert 29)
       \<and> run_btree_modify_oper E fuel key st0 \<noteq> Inl (Null_deref 30)"
proof -
  have "\<not> without_superblock (run_btree_modify_oper E fuel key st0)"
  proof (cases "get_root E (st0\<lparr>sb_buf := True, last_buf := None, buf := None\<rparr>)")
    case (Inl e)
    with get_root_not_29 [of "st0\<lparr>sb_buf := True, last_buf := None, buf := None\<rparr>" E]
    show ?thesis by (simp add: run_btree_modify_oper_def)
  next
    case (Inr st1)
    note r1 = get_root_safe [OF assms(2) Inr]
    note d = descend_safe [OF assms(1) r1, of key fuel]
    show ?thesis
    proof (cases "descend E key fuel st1")
      case (Inl e)
      with d Inr show ?thesis by (simp add: run_btree_modify_oper_def)
    next
      case st: (Inr st)
      with d obtain b node where "root_safe E st" "buf st = Some b" "blocks st b = Some node"
        "\<not> is_internal E node" by blast
      from apply_at_leaf_not_29_safe [OF assms(1) this, of key] Inr st show ?thesis
        by (simp add: run_btree_modify_oper_def)
    qed
  qed
  then show ?thesis by (simp add: without_superblock_def)
qed

theorem superblock_held_at_insert_root_witness:
  "run_btree_modify_oper (eager_env True delete_oper) (Suc 0) [5]
       (family_store [([10], Blk 2)] (Blk 3) twins) \<noteq> Inl (Rassert 29)
   \<and> run_btree_modify_oper (eager_env True delete_oper) (Suc 0) [5]
       (family_store [([10], Blk 2)] (Blk 3) twins) \<noteq> Inl (Null_deref 30)
   \<and> \<not> isl (run_btree_modify_oper (eager_env True delete_oper) (Suc 0) [5]
              (family_store [([10], Blk 2)] (Blk 3) twins))
   \<and> root_block (projr (run_btree_modify_oper (eager_env True delete_oper) (Suc 0) [5]
              (family_store [([10], Blk 2)] (Blk 3) twins))) = Blk 3"
proof -
  have e: "\<not> isl (run_btree_modify_oper (eager_env True delete_oper) (Suc 0) [5]
              (family_store [([10], Blk 2)] (Blk 3) twins))"
    "root_block (projr (run_btree_modify_oper (eager_env True delete_oper) (Suc 0) [5]
              (family_store [([10], Blk 2)] (Blk 3) twins))) = Blk 3"
    by (simp_all add: walk_defs toy_defs eager_env_def eager_mergable_def family_store_def
                      twins_def)
  from superblock_held_at_insert_root [where E = "eager_env True delete_oper" and fuel = "Suc 0"
         and key = "[5]", OF eager_root_contract fresh_family] e
  show ?thesis by simp
qed

end
